theory Spec2Isabelle
  imports Main "HOL-Library.Word" "HOL-Library.Multiset"
begin

unbundle bit_operations_syntax

section \<open>The cube state model of \<open>m6006_r16_01_rubiks_cube.cpp\<close>\<close>

subsection \<open>Identifiers and slots\<close>

text \<open>
  \<open>enum move_type_t { FC, FCC, DC, DCC, LC, LCC, NUMMOVES }\<close>. \<open>apply_move\<close> tests its
  argument against both ends of the range, so a move identifier is modelled as an integer
  and the enumerators as the integers the enum gives them.
\<close>

type_synonym move_type_t = int

definition FC :: move_type_t where "FC = 0"
definition FCC :: move_type_t where "FCC = 1"
definition DC :: move_type_t where "DC = 2"
definition DCC :: move_type_t where "DCC = 3"
definition LC :: move_type_t where "LC = 4"
definition LCC :: move_type_t where "LCC = 5"
definition NUMMOVES :: move_type_t where "NUMMOVES = 6"

lemmas move_ids = FC_def FCC_def DC_def DCC_def LC_def LCC_def NUMMOVES_def

definition NUMSLOTS :: nat where "NUMSLOTS = 24"

text \<open>\<open>typedef uint16_t facelet_id_t\<close>; the only data member of the class is
  \<open>facelet_id_t mSlots[NUMSLOTS]\<close>, so a cube is the list of its slots.\<close>

type_synonym facelet_id_t = "16 word"
type_synonym RubiksCube = "facelet_id_t list"

text \<open>\<open>get_slot_num(uint8_t x, uint8_t y, uint8_t z, uint8_t f)\<close>: the arguments are
  promoted to \<open>int\<close>, where the shifts cannot overflow.\<close>

definition get_slot_num :: "8 word \<Rightarrow> 8 word \<Rightarrow> 8 word \<Rightarrow> 8 word \<Rightarrow> nat" where
  "get_slot_num x y z f =
     (push_bit 2 (unat x) OR push_bit 1 (unat y) OR unat z) * 3 + unat f"

subsection \<open>Facelet identities\<close>

datatype color_t = R | G | B | C | M | Y

text \<open>The integer value of an enumerator of \<open>color_t\<close>.\<close>

fun color_int :: "color_t \<Rightarrow> nat" where
  "color_int R = 0"
| "color_int G = 1"
| "color_int B = 2"
| "color_int C = 3"
| "color_int M = 4"
| "color_int Y = 5"

text \<open>\<open>return (c1 << 6 | c2 << 3 | c3)\<close>, computed in \<open>int\<close> and converted to
  \<open>uint16_t\<close>.\<close>

definition get_facelet_id :: "color_t \<Rightarrow> color_t \<Rightarrow> color_t \<Rightarrow> facelet_id_t" where
  "get_facelet_id c1 c2 c3 =
     of_nat (push_bit 6 (color_int c1) OR push_bit 3 (color_int c2) OR color_int c3)"

text \<open>\<open>static_cast<color_t>((f >> 6) & 0x7)\<close>. The cast can produce the values 6 and 7,
  which name no enumerator, and the callers compare the results as integers: the model
  returns the integer value.\<close>

definition get_facelet_color :: "facelet_id_t \<Rightarrow> nat" where
  "get_facelet_color f = unat (drop_bit 6 f AND 7)"

subsection \<open>The move table\<close>

text \<open>\<open>size_t Move[NUMMOVES][NUMSLOTS] = {{0}}\<close>: the table before \<open>init_moves\<close>.\<close>

definition Move_static :: "nat list list" where
  "Move_static = replicate (nat NUMMOVES) (replicate NUMSLOTS 0)"

text \<open>The assignment \<open>Move[i][j] = v\<close>.\<close>

definition set_entry :: "nat list list \<Rightarrow> nat \<Rightarrow> nat \<Rightarrow> nat \<Rightarrow> nat list list" where
  "set_entry tbl i j v = tbl[i := (tbl ! i)[j := v]]"

text \<open>The lambda \<open>populate_move\<close>: the \<open>size_t\<close> coordinates are narrowed to
  \<open>uint8_t\<close> at the calls of \<open>get_slot_num\<close>.\<close>

definition populate_move ::
  "move_type_t \<Rightarrow> nat list list \<Rightarrow> nat list list \<Rightarrow> nat list \<Rightarrow> nat list
     \<Rightarrow> nat list list \<Rightarrow> nat list list" where
  "populate_move mv cubelet_from cubelet_to facelet_from facelet_to tbl =
     fold (\<lambda>cubelet. fold (\<lambda>facelet t.
             set_entry t (nat mv)
               (get_slot_num (of_nat (cubelet_from ! cubelet ! 0))
                   (of_nat (cubelet_from ! cubelet ! 1))
                   (of_nat (cubelet_from ! cubelet ! 2))
                   (of_nat (facelet_from ! facelet)))
               (get_slot_num (of_nat (cubelet_to ! cubelet ! 0))
                   (of_nat (cubelet_to ! cubelet ! 1))
                   (of_nat (cubelet_to ! cubelet ! 2))
                   (of_nat (facelet_to ! facelet))))
           [0..<3])
       [0..<4] tbl"

text \<open>The first two loops of \<open>init_moves\<close>: every move starts as the identity.\<close>

definition fill_identity :: "nat list list \<Rightarrow> nat list list" where
  "fill_identity tbl =
     fold (\<lambda>i. fold (\<lambda>j t. set_entry t i j j) [0..<NUMSLOTS]) [0..<nat NUMMOVES] tbl"

text \<open>The last loop of \<open>init_moves\<close>: \<open>v = Move[mc[m]][i]; Move[mcc[m]][v] = i\<close>.\<close>

definition invert_moves :: "nat list list \<Rightarrow> nat list list" where
  "invert_moves tbl =
     (let mc = [FC, LC, DC]; mcc = [FCC, LCC, DCC]
      in fold (\<lambda>m. fold (\<lambda>i t.
                 let v = t ! nat (mc ! m) ! i
                 in set_entry t (nat (mcc ! m)) v i)
               [0..<NUMSLOTS])
           [0..<3] tbl)"

definition init_moves :: "nat list list \<Rightarrow> nat list list" where
  "init_moves tbl =
     (if tbl ! 0 ! 0 \<noteq> 0 then tbl
      else
        let t0 = fill_identity tbl;
            t1 = populate_move FC
                   [[0, 0, 0], [0, 0, 1], [0, 1, 1], [0, 1, 0]]
                   [[0, 0, 1], [0, 1, 1], [0, 1, 0], [0, 0, 0]]
                   [0, 1, 2] [0, 2, 1] t0;
            t2 = populate_move LC
                   [[0, 0, 0], [0, 0, 1], [1, 0, 1], [1, 0, 0]]
                   [[0, 0, 1], [1, 0, 1], [1, 0, 0], [0, 0, 0]]
                   [0, 1, 2] [2, 1, 0] t1;
            t3 = populate_move DC
                   [[0, 0, 0], [0, 1, 0], [1, 1, 0], [1, 0, 0]]
                   [[0, 1, 0], [1, 1, 0], [1, 0, 0], [0, 0, 0]]
                   [0, 1, 2] [1, 0, 2] t2
        in invert_moves t3)"

text \<open>The table every cube works with: the constructor runs \<open>init_moves\<close> on the
  static table before any move can be applied.\<close>

definition Move :: "nat list list" where
  "Move = init_moves Move_static"

subsection \<open>Construction, moves and the solved test\<close>

definition face_color :: "color_t list list" where
  "face_color = [[R, G], [B, C], [M, Y]]"

text \<open>The constructor \<open>RubiksCube()\<close>. The four loops write every one of the 24 slots, so
  the content of the array before them is immaterial; the model starts from zeros.\<close>

definition RubiksCube_ctor :: RubiksCube where
  "RubiksCube_ctor =
     fold (\<lambda>x. fold (\<lambda>y. fold (\<lambda>z. fold (\<lambda>f mSlots.
             let cubelet_color = [face_color ! 0 ! unat x, face_color ! 1 ! unat y,
                                  face_color ! 2 ! unat z];
                 facelet_id = get_facelet_id (cubelet_color ! unat f)
                                (cubelet_color ! ((unat f + 1) mod 3))
                                (cubelet_color ! ((unat f + 2) mod 3));
                 slot = get_slot_num x y z f
             in mSlots[slot := facelet_id])
           [0, 1, 2]) [0, 1]) [0, 1]) [0, 1] (replicate NUMSLOTS 0)"

text \<open>\<open>apply_move\<close>: the slots are copied into \<open>size_t oldSlots[NUMSLOTS]\<close> and written
  back through the table, \<open>mSlots[i] = oldSlots[Move[m][i]]\<close>.\<close>

definition apply_move :: "RubiksCube \<Rightarrow> move_type_t \<Rightarrow> RubiksCube" where
  "apply_move mSlots m =
     (if m \<ge> NUMMOVES \<or> m < 0 then mSlots
      else
        let oldSlots = map unat mSlots
        in fold (\<lambda>i s. s[i := of_nat (oldSlots ! (Move ! nat m ! i))]) [0..<NUMSLOTS] mSlots)"

text \<open>\<open>is_solved\<close>: the four loops return false at the first slot whose primary colour
  differs from that of the reference slot of its face.\<close>

definition is_solved :: "RubiksCube \<Rightarrow> bool" where
  "is_solved mSlots =
     list_all (\<lambda>x. list_all (\<lambda>y. list_all (\<lambda>z. list_all (\<lambda>f.
         let fcolor = get_facelet_color (mSlots ! get_slot_num
                        (if f = 0 then x else 0) (if f = 1 then y else 0)
                        (if f = 2 then z else 0) f);
             slot = get_slot_num x y z f
         in \<not> (get_facelet_color (mSlots ! slot) \<noteq> fcolor))
       [0, 1, 2]) [0, 1]) [0, 1]) [0, 1]"

subsection \<open>The shortest-path solver\<close>

text \<open>A move identifier that passes the range check of \<open>apply_move\<close>.\<close>

definition valid_move :: "move_type_t \<Rightarrow> bool" where
  "valid_move m = (\<not> (m \<ge> NUMMOVES \<or> m < 0))"

text \<open>Replaying a move sequence, as \<open>main\<close> does with the solution:
  \<open>for (const auto &m : solution) r.apply_move(m)\<close>.\<close>

definition replay :: "RubiksCube \<Rightarrow> move_type_t list \<Rightarrow> RubiksCube" where
  "replay s ms = foldl apply_move s ms"

text \<open>The pairing of the arrays \<open>mc = {FC, LC, DC}\<close> and \<open>mcc = {FCC, LCC, DCC}\<close> of
  \<open>init_moves\<close>, read in both directions.\<close>

definition inverse_move :: "move_type_t \<Rightarrow> move_type_t" where
  "inverse_move m =
     (if m = FC then FCC else if m = LC then LCC else if m = DC then DCC
      else if m = FCC then FC else if m = LCC then LC else if m = DCC then DC else m)"

text \<open>\<open>RubiksCubeEqual\<close>: the loop returns false at the first slot that differs.\<close>

definition rc_equal :: "RubiksCube \<Rightarrow> RubiksCube \<Rightarrow> bool" where
  "rc_equal lhs rhs = list_all (\<lambda>i. \<not> (lhs ! i \<noteq> rhs ! i)) [0..<NUMSLOTS]"

text \<open>
  \<open>std::unordered_map<RubiksCube, std::pair<RubiksCube, move_type_t>, ...> parents\<close>.
  Its key equality is \<open>RubiksCubeEqual\<close>, which on arrays of 24 slots is equality of the
  slot lists; the hash only selects a bucket. An iterator into the map is \<open>None\<close> for
  \<open>parents.end()\<close> and otherwise the entry it points to.
\<close>

type_synonym parents_t = "RubiksCube \<rightharpoonup> RubiksCube \<times> move_type_t"
type_synonym parents_itr = "(RubiksCube \<times> RubiksCube \<times> move_type_t) option"

definition parents_find :: "parents_t \<Rightarrow> RubiksCube \<Rightarrow> parents_itr" where
  "parents_find parents k = map_option (\<lambda>v. (k, v)) (parents k)"

text \<open>The loop \<open>for (auto m = 0; m < NUMMOVES; ++m)\<close> over the successors of \<open>u\<close>.\<close>

definition expand ::
  "RubiksCube \<Rightarrow> RubiksCube list \<times> parents_t \<Rightarrow> RubiksCube list \<times> parents_t" where
  "expand u fp =
     fold (\<lambda>m (frontier, parents).
             let v = apply_move u m
             in if parents_find parents v = None
                then (frontier @ [v], parents(v \<mapsto> (u, m)))
                else (frontier, parents))
       [0..NUMMOVES - 1] fp"

text \<open>The BFS loop \<open>while (!frontier.empty())\<close>; it returns \<open>dst_itr\<close> and the map.
  A search that never ends has the value \<open>None\<close>.\<close>

partial_function (option) bfs_loop ::
  "RubiksCube list \<Rightarrow> parents_t \<Rightarrow> (parents_itr \<times> parents_t) option" where
  "bfs_loop frontier parents =
     (case frontier of
        [] \<Rightarrow> Some (None, parents)
      | u # frontier' \<Rightarrow>
          if is_solved u then Some (parents_find parents u, parents)
          else (case expand u (frontier', parents) of
                  (frontier'', parents') \<Rightarrow> bfs_loop frontier'' parents'))"

declare bfs_loop.simps [code]

text \<open>The loop that follows the parent links and prepends the moves to \<open>solution\<close>.\<close>

partial_function (option) follow_parents ::
  "parents_t \<Rightarrow> RubiksCube \<Rightarrow> parents_itr \<Rightarrow> move_type_t list \<Rightarrow> move_type_t list option" where
  "follow_parents parents this dst_itr solution =
     (case dst_itr of
        None \<Rightarrow> Some solution
      | Some (k, (p, mv)) \<Rightarrow>
          if \<not> rc_equal k this
          then follow_parents parents this (parents_find parents p) (mv # solution)
          else Some solution)"

declare follow_parents.simps [code]

text \<open>\<open>get_solution\<close>, called on the cube \<open>this\<close> with the caller's list \<open>solution\<close>.\<close>

definition get_solution :: "RubiksCube \<Rightarrow> move_type_t list \<Rightarrow> move_type_t list option" where
  "get_solution this solution =
     (case bfs_loop [this] [this \<mapsto> (this, NUMMOVES)] of
        None \<Rightarrow> None
      | Some (dst_itr, parents) \<Rightarrow> follow_parents parents this dst_itr solution)"

section \<open>Notions for the properties of the solver\<close>

text \<open>\<open>reach s n v\<close>: some sequence of \<open>n\<close> valid moves leads from \<open>s\<close> to \<open>v\<close>;
  \<open>mdist s v\<close> is the least such \<open>n\<close>.\<close>

definition reach :: "RubiksCube \<Rightarrow> nat \<Rightarrow> RubiksCube \<Rightarrow> bool" where
  "reach s n v = (\<exists>ms. length ms = n \<and> list_all valid_move ms \<and> replay s ms = v)"

definition mdist :: "RubiksCube \<Rightarrow> RubiksCube \<Rightarrow> nat" where
  "mdist s v = (LEAST n. reach s n v)"

text \<open>\<open>links parents s v ms\<close>: following the parent entries from \<open>v\<close> back to \<open>s\<close> collects
  the moves \<open>ms\<close>, first move first.\<close>

inductive links :: "parents_t \<Rightarrow> RubiksCube \<Rightarrow> RubiksCube \<Rightarrow> move_type_t list \<Rightarrow> bool"
  for parents :: parents_t and s :: RubiksCube where
  at_start: "links parents s s []"
| parent_link: "v \<noteq> s \<Longrightarrow> parents v = Some (p, mv) \<Longrightarrow> links parents s p ms
                \<Longrightarrow> links parents s v (ms @ [mv])"

text \<open>The invariant of the search. \<open>opn\<close> holds the cube taken from the frontier whose
  successors are being generated (empty between two iterations of the outer loop), \<open>d\<close> is
  the level the search works on.\<close>

definition recorded :: "RubiksCube \<Rightarrow> parents_t \<Rightarrow> bool" where
  "recorded s parents =
     (length s = 24 \<and> s \<in> dom parents
      \<and> (\<forall>v\<in>dom parents. \<exists>ms. links parents s v ms \<and> list_all valid_move ms
             \<and> replay s ms = v \<and> length ms = mdist s v))"

definition queue_ok ::
  "RubiksCube \<Rightarrow> nat \<Rightarrow> RubiksCube set \<Rightarrow> RubiksCube list \<Rightarrow> parents_t \<Rightarrow> bool" where
  "queue_ok s d opn frontier parents =
     (set frontier \<subseteq> dom parents \<and> distinct frontier
      \<and> opn \<subseteq> dom parents \<and> opn \<inter> set frontier = {}
      \<and> sorted (map (mdist s) frontier)
      \<and> (\<forall>v\<in>set frontier. d \<le> mdist s v \<and> mdist s v \<le> d + 1)
      \<and> (\<forall>v\<in>opn. mdist s v = d))"

definition expanded_ok ::
  "RubiksCube \<Rightarrow> nat \<Rightarrow> RubiksCube set \<Rightarrow> RubiksCube list \<Rightarrow> parents_t \<Rightarrow> bool" where
  "expanded_ok s d opn frontier parents =
     (\<forall>v\<in>dom parents. v \<notin> opn \<longrightarrow> v \<notin> set frontier \<longrightarrow>
        \<not> is_solved v \<and> mdist s v \<le> d
        \<and> (\<forall>m. valid_move m \<longrightarrow> apply_move v m \<in> dom parents))"

definition search_inv ::
  "RubiksCube \<Rightarrow> nat \<Rightarrow> RubiksCube set \<Rightarrow> RubiksCube list \<Rightarrow> parents_t \<Rightarrow> bool" where
  "search_inv s d opn frontier parents =
     (recorded s parents \<and> queue_ok s d opn frontier parents
      \<and> expanded_ok s d opn frontier parents)"

text \<open>One pass of the loop body of \<open>expand\<close>.\<close>

definition visit ::
  "RubiksCube \<Rightarrow> move_type_t \<Rightarrow> RubiksCube list \<times> parents_t \<Rightarrow> RubiksCube list \<times> parents_t" where
  "visit u m fp =
     (case fp of (frontier, parents) \<Rightarrow>
        let v = apply_move u m
        in if parents_find parents v = None
           then (frontier @ [v], parents(v \<mapsto> (u, m)))
           else (frontier, parents))"

text \<open>
  The cubelet a facelet identity belongs to, read off its three colours: the colour pairs
  R/G, B/C and M/Y mark the two sides of the x, y and z axis, so each colour of the identity
  gives one coordinate of the cubelet, and the cubelet number is \<open>x << 2 | y << 1 | z\<close> as in
  \<open>get_slot_num\<close>.
\<close>

definition axis_weight :: "nat \<Rightarrow> nat" where
  "axis_weight c = (c mod 2) * (4 div 2 ^ (c div 2))"

definition facelet_cubelet :: "facelet_id_t \<Rightarrow> nat" where
  "facelet_cubelet f =
     axis_weight (unat (drop_bit 6 f AND 7)) + axis_weight (unat (drop_bit 3 f AND 7))
       + axis_weight (unat (f AND 7))"

text \<open>What every cube reached from the solved cube keeps: its slots are a rearrangement of
  the solved cube's, the cubelet at Back-Right-Up never moves (no move turns it), and the
  three slots of a position hold facelets of one cubelet.\<close>

definition coherent :: "RubiksCube \<Rightarrow> bool" where
  "coherent s =
     (length s = 24 \<and> mset s = mset RubiksCube_ctor
      \<and> s ! 21 = RubiksCube_ctor ! 21 \<and> s ! 22 = RubiksCube_ctor ! 22
      \<and> s ! 23 = RubiksCube_ctor ! 23
      \<and> list_all (\<lambda>i. facelet_cubelet (s ! i) = facelet_cubelet (s ! (3 * (i div 3))))
           [0..<24])"

section \<open>The tables the program computes\<close>

lemma Move_table:
  "Move =
    [[3, 5, 4, 9, 11, 10, 0, 2, 1, 6, 8, 7, 12, 13, 14, 15, 16, 17, 18, 19, 20, 21, 22, 23],
     [6, 8, 7, 0, 2, 1, 9, 11, 10, 3, 5, 4, 12, 13, 14, 15, 16, 17, 18, 19, 20, 21, 22, 23],
     [7, 6, 8, 3, 4, 5, 19, 18, 20, 9, 10, 11, 1, 0, 2, 15, 16, 17, 13, 12, 14, 21, 22, 23],
     [13, 12, 14, 3, 4, 5, 1, 0, 2, 9, 10, 11, 19, 18, 20, 15, 16, 17, 7, 6, 8, 21, 22, 23],
     [5, 4, 3, 17, 16, 15, 6, 7, 8, 9, 10, 11, 2, 1, 0, 14, 13, 12, 18, 19, 20, 21, 22, 23],
     [14, 13, 12, 2, 1, 0, 6, 7, 8, 9, 10, 11, 17, 16, 15, 5, 4, 3, 18, 19, 20, 21, 22, 23]]"
  by code_simp

lemma ctor_table:
  "RubiksCube_ctor =
    [20, 160, 258, 21, 168, 322, 28, 224, 259, 29, 232, 323,
     84, 161, 266, 85, 169, 330, 92, 225, 267, 93, 233, 331]"
  by code_simp

text \<open>A later constructor call finds \<open>Move[0][0] = 3\<close> and leaves the table alone.\<close>

lemma init_moves_again: "init_moves Move = Move"
  by (simp add: init_moves_def Move_table)

text \<open>From here on the evaluator reads the two tables instead of rebuilding them.\<close>

declare Move_table [code]
declare ctor_table [code]

lemma valid_move_cases:
  "valid_move m \<longleftrightarrow> m = FC \<or> m = FCC \<or> m = DC \<or> m = DCC \<or> m = LC \<or> m = LCC"
  unfolding valid_move_def move_ids by presburger

lemma valid_inverse_move: "valid_move m \<Longrightarrow> valid_move (inverse_move m)"
  by (auto simp: valid_move_cases inverse_move_def)

lemma inverse_inverse_move: "valid_move m \<Longrightarrow> inverse_move (inverse_move m) = m"
  by (auto simp: valid_move_cases inverse_move_def move_ids)

lemma length_ctor: "length RubiksCube_ctor = 24"
  by (simp add: ctor_table)

section \<open>What \<open>apply_move\<close> computes\<close>

lemma fold_update_upt:
  "n \<le> length s \<Longrightarrow>
     fold (\<lambda>i s. s[i := f i]) [0..<n] s = map f [0..<n] @ drop n s"
proof (induction n)
  case 0
  then show ?case by simp
next
  case (Suc n)
  then have "fold (\<lambda>i s. s[i := f i]) [0..<Suc n] s = (map f [0..<n] @ drop n s)[n := f n]"
    by simp
  also have "\<dots> = map f [0..<n] @ (drop n s)[0 := f n]"
    by (simp add: list_update_append)
  also have "(drop n s)[0 := f n] = f n # drop (Suc n) s"
    using Suc.prems by (simp add: Cons_nth_drop_Suc [symmetric])
  finally show ?case by simp
qed

lemma Move_rows_bound:
  "list_all (\<lambda>p. length p = 24 \<and> list_all (\<lambda>v. v < 24) p) Move \<and> length Move = 6"
  by code_simp

lemma Move_entry_less:
  assumes "valid_move m" "i < 24"
  shows "Move ! nat m ! i < 24"
proof -
  have "length Move = 6" using Move_rows_bound by simp
  then have m: "nat m < length Move" using assms(1)
    unfolding valid_move_def NUMMOVES_def by linarith
  then have "Move ! nat m \<in> set Move" by simp
  with Move_rows_bound have "length (Move ! nat m) = 24" "\<forall>v\<in>set (Move ! nat m). v < 24"
    by (auto simp: list_all_iff)
  with assms(2) show ?thesis by simp
qed

lemma apply_move_invalid: "\<not> valid_move m \<Longrightarrow> apply_move s m = s"
  unfolding apply_move_def valid_move_def by simp

lemma apply_move_valid:
  assumes "valid_move m" "length s = 24"
  shows "apply_move s m = map (\<lambda>i. s ! (Move ! nat m ! i)) [0..<24]"
proof -
  have "apply_move s m = map (\<lambda>i. of_nat (map unat s ! (Move ! nat m ! i))) [0..<24]"
    using assms by (simp add: apply_move_def valid_move_def NUMSLOTS_def fold_update_upt)
  also have "\<dots> = map (\<lambda>i. s ! (Move ! nat m ! i)) [0..<24]"
    using assms by (simp add: Move_entry_less)
  finally show ?thesis .
qed

lemma length_apply_move:
  assumes "length s = 24"
  shows "length (apply_move s m) = 24"
proof (cases "valid_move m")
  case True
  then show ?thesis using assms by (simp add: apply_move_valid)
next
  case False
  then show ?thesis using assms by (simp add: apply_move_invalid)
qed

lemma apply_move_nth:
  "valid_move m \<Longrightarrow> length s = 24 \<Longrightarrow> i < 24 \<Longrightarrow> apply_move s m ! i = s ! (Move ! nat m ! i)"
  by (simp add: apply_move_valid)

lemma length_replay: "length s = 24 \<Longrightarrow> length (replay s ms) = 24"
  unfolding replay_def by (induction ms arbitrary: s) (simp_all add: length_apply_move)

lemma replay_append: "replay s (ms @ ns) = replay (replay s ms) ns"
  by (simp add: replay_def)

lemma replay_Nil: "replay s [] = s"
  by (simp add: replay_def)

lemma replay_Cons: "replay s (m # ms) = replay (apply_move s m) ms"
  by (simp add: replay_def)

lemma replay_snoc: "replay s (ms @ [m]) = apply_move (replay s ms) m"
  by (simp add: replay_def)

lemma Move_inverse_rows:
  "list_all (\<lambda>m. list_all (\<lambda>i. Move ! nat m ! (Move ! nat (inverse_move m) ! i) = i) [0..<24])
     [FC, FCC, DC, DCC, LC, LCC]"
  by code_simp

lemma Move_inverse_entry:
  assumes "valid_move m" "i < 24"
  shows "Move ! nat m ! (Move ! nat (inverse_move m) ! i) = i"
proof -
  from assms(1) have "m \<in> set [FC, FCC, DC, DCC, LC, LCC]"
    by (auto simp: valid_move_cases)
  with Move_inverse_rows
  have "list_all (\<lambda>i. Move ! nat m ! (Move ! nat (inverse_move m) ! i) = i) [0..<24]"
    unfolding list_all_iff by blast
  with assms(2) show ?thesis by (simp add: list_all_iff)
qed

lemma apply_move_inverse:
  assumes "length s = 24" and "valid_move m"
  shows "apply_move (apply_move s m) (inverse_move m) = s"
proof (rule nth_equalityI)
  from assms show "length (apply_move (apply_move s m) (inverse_move m)) = length s"
    by (simp add: length_apply_move)
next
  fix i assume "i < length (apply_move (apply_move s m) (inverse_move m))"
  with assms have i: "i < 24" by (simp add: length_apply_move)
  have v': "valid_move (inverse_move m)" using assms(2) by (rule valid_inverse_move)
  have j: "Move ! nat (inverse_move m) ! i < 24" using v' i by (rule Move_entry_less)
  have "apply_move (apply_move s m) (inverse_move m) ! i
          = apply_move s m ! (Move ! nat (inverse_move m) ! i)"
    using v' assms(1) i by (simp add: apply_move_nth length_apply_move)
  also have "\<dots> = s ! (Move ! nat m ! (Move ! nat (inverse_move m) ! i))"
    using assms j by (simp add: apply_move_nth)
  also have "\<dots> = s ! i"
    using assms(2) i by (simp add: Move_inverse_entry)
  finally show "apply_move (apply_move s m) (inverse_move m) ! i = s ! i" .
qed

section \<open>Facelet identities\<close>

lemma color_int_inject: "color_int c = color_int d \<Longrightarrow> c = d"
  by (cases c; cases d; simp)

lemma facelet_id_primary:
  "unat (drop_bit 6 (get_facelet_id c1 c2 c3) AND 7) = color_int c1"
  by (cases c1; cases c2; cases c3; simp add: get_facelet_id_def)

lemma facelet_id_second:
  "unat (drop_bit 3 (get_facelet_id c1 c2 c3) AND 7) = color_int c2"
  by (cases c1; cases c2; cases c3; simp add: get_facelet_id_def)

lemma facelet_id_third:
  "unat (get_facelet_id c1 c2 c3 AND 7) = color_int c3"
  by (cases c1; cases c2; cases c3; simp add: get_facelet_id_def)

text \<open>
  Claim C10. Packing three colours and reading the primary colour back gives the first
  colour. The three 3-bit fields do not overlap: each of them read back alone gives the
  colour stored in it, so two triples of colours with the same identity are the same triple.
\<close>

theorem C10_facelet_id_roundtrip:
  "get_facelet_color (get_facelet_id c1 c2 c3) = color_int c1
   \<and> unat (drop_bit 3 (get_facelet_id c1 c2 c3) AND 7) = color_int c2
   \<and> unat (get_facelet_id c1 c2 c3 AND 7) = color_int c3
   \<and> ((get_facelet_id c1 c2 c3 = get_facelet_id d1 d2 d3) = (c1 = d1 \<and> c2 = d2 \<and> c3 = d3))"
proof -
  have inj: "c1 = d1 \<and> c2 = d2 \<and> c3 = d3"
    if eq: "get_facelet_id c1 c2 c3 = get_facelet_id d1 d2 d3"
  proof -
    have "color_int c1 = color_int d1"
      using facelet_id_primary [of c1 c2 c3] facelet_id_primary [of d1 d2 d3] eq by simp
    moreover have "color_int c2 = color_int d2"
      using facelet_id_second [of c1 c2 c3] facelet_id_second [of d1 d2 d3] eq by simp
    moreover have "color_int c3 = color_int d3"
      using facelet_id_third [of c1 c2 c3] facelet_id_third [of d1 d2 d3] eq by simp
    ultimately show ?thesis by (simp add: color_int_inject)
  qed
  have "(get_facelet_id c1 c2 c3 = get_facelet_id d1 d2 d3) = (c1 = d1 \<and> c2 = d2 \<and> c3 = d3)"
    using inj by blast
  then show ?thesis
    by (simp add: get_facelet_color_def facelet_id_primary facelet_id_second facelet_id_third)
qed

section \<open>The move table\<close>

lemma Move_ccw_rows:
  "list_all (\<lambda>i. Move ! nat FCC ! (Move ! nat FC ! i) = i
               \<and> Move ! nat LCC ! (Move ! nat LC ! i) = i
               \<and> Move ! nat DCC ! (Move ! nat DC ! i) = i) [0..<NUMSLOTS]"
  by code_simp

text \<open>
  Claim C6. In the table built by \<open>init_moves\<close>, each counter-clockwise row undoes its
  clockwise row: for the pairs FC/FCC, LC/LCC and DC/DCC and every slot \<open>i\<close> of the 24,
  \<open>CCW[CW[i]] = i\<close>.
\<close>

theorem C6_ccw_inverts_cw:
  "i < NUMSLOTS \<Longrightarrow>
     Move ! nat FCC ! (Move ! nat FC ! i) = i
     \<and> Move ! nat LCC ! (Move ! nat LC ! i) = i
     \<and> Move ! nat DCC ! (Move ! nat DC ! i) = i"
  using Move_ccw_rows unfolding list_all_iff by simp

theorem C6_ccw_inverts_cw_witness:
  "(5::nat) < NUMSLOTS \<and> Move ! nat FC ! 5 = 10
   \<and> Move ! nat FCC ! 10 = 5
   \<and> Move ! nat LCC ! (Move ! nat LC ! 5) = 5
   \<and> Move ! nat DCC ! (Move ! nat DC ! 5) = 5"
proof -
  have h: "(5::nat) < NUMSLOTS" by (simp add: NUMSLOTS_def)
  have "Move ! nat FC ! 5 = 10" by (simp add: Move_table FC_def)
  with h C6_ccw_inverts_cw [OF h] show ?thesis by simp
qed

section \<open>Applying moves\<close>

text \<open>
  Claim C9. A move identifier outside the six valid values (\<open>m \<ge> NUMMOVES\<close> or \<open>m < 0\<close>)
  leaves every slot as it was: \<open>apply_move\<close> returns before it touches the array.
\<close>

theorem C9_invalid_move_noop:
  "m \<ge> NUMMOVES \<or> m < 0 \<Longrightarrow> apply_move s m = s"
  by (simp add: apply_move_def)

theorem C9_invalid_move_noop_witness:
  "(NUMMOVES \<ge> NUMMOVES \<or> NUMMOVES < 0)
   \<and> apply_move RubiksCube_ctor NUMMOVES = RubiksCube_ctor
   \<and> ((-1::int) \<ge> NUMMOVES \<or> (-1::int) < 0)
   \<and> apply_move RubiksCube_ctor (-1) = RubiksCube_ctor"
proof -
  have h1: "NUMMOVES \<ge> NUMMOVES \<or> NUMMOVES < 0" by simp
  have h2: "(-1::int) \<ge> NUMMOVES \<or> (-1::int) < 0" by simp
  show ?thesis
    using h1 h2 C9_invalid_move_noop [OF h1, of RubiksCube_ctor]
      C9_invalid_move_noop [OF h2, of RubiksCube_ctor]
    by simp
qed

text \<open>
  Claim C4. For every cube \<open>s\<close> (24 slots) and every valid move \<open>m\<close>, applying \<open>m\<close> and then
  its opposite (FC and FCC, LC and LCC, DC and DCC, in either order) gives \<open>s\<close> back.
\<close>

theorem C4_apply_inverse:
  assumes "length s = NUMSLOTS" and "valid_move m"
  shows "apply_move (apply_move s m) (inverse_move m) = s"
  using assms by (simp add: NUMSLOTS_def apply_move_inverse)

theorem C4_apply_inverse_witness:
  "apply_move (apply_move RubiksCube_ctor FC) (inverse_move FC) = RubiksCube_ctor
   \<and> inverse_move FC = FCC \<and> apply_move RubiksCube_ctor FC \<noteq> RubiksCube_ctor"
proof -
  have "length RubiksCube_ctor = NUMSLOTS" by (simp add: length_ctor NUMSLOTS_def)
  moreover have "valid_move FC" by (simp add: valid_move_def move_ids)
  ultimately have "apply_move (apply_move RubiksCube_ctor FC) (inverse_move FC) = RubiksCube_ctor"
    by (rule C4_apply_inverse)
  moreover have "inverse_move FC = FCC" by (simp add: inverse_move_def move_ids)
  moreover have "apply_move RubiksCube_ctor FC \<noteq> RubiksCube_ctor" by code_simp
  ultimately show ?thesis by blast
qed

lemma Move_order4_rows:
  "list_all (\<lambda>m. list_all (\<lambda>i.
       Move ! nat m ! (Move ! nat m ! (Move ! nat m ! (Move ! nat m ! i))) = i) [0..<24])
     [FC, LC, DC]"
  by code_simp

lemma Move_order4_entry:
  assumes "m = FC \<or> m = LC \<or> m = DC" "i < 24"
  shows "Move ! nat m ! (Move ! nat m ! (Move ! nat m ! (Move ! nat m ! i))) = i"
proof -
  from assms(1) have "m \<in> set [FC, LC, DC]" by auto
  with Move_order4_rows
  have "list_all (\<lambda>i. Move ! nat m ! (Move ! nat m ! (Move ! nat m ! (Move ! nat m ! i))) = i)
          [0..<24]"
    unfolding list_all_iff by blast
  with assms(2) show ?thesis by (simp add: list_all_iff)
qed

text \<open>
  Claim C8. For each clockwise move (FC, LC, DC) and every cube \<open>s\<close> (24 slots), four
  applications of the move in a row give \<open>s\<close> back; in particular the solved cube returns to
  itself.
\<close>

theorem C8_clockwise_order_four:
  assumes "length s = NUMSLOTS" and "m = FC \<or> m = LC \<or> m = DC"
  shows "apply_move (apply_move (apply_move (apply_move s m) m) m) m = s"
proof (rule nth_equalityI)
  have len: "length s = 24" using assms(1) by (simp add: NUMSLOTS_def)
  then show "length (apply_move (apply_move (apply_move (apply_move s m) m) m) m) = length s"
    by (simp add: length_apply_move)
  fix i assume "i < length (apply_move (apply_move (apply_move (apply_move s m) m) m) m)"
  with len have i: "i < 24" by (simp add: length_apply_move)
  have v: "valid_move m" using assms(2) by (auto simp: valid_move_cases)
  let ?p = "\<lambda>i. Move ! nat m ! i"
  have b1: "?p i < 24" using v i by (rule Move_entry_less)
  have b2: "?p (?p i) < 24" using v b1 by (rule Move_entry_less)
  have b3: "?p (?p (?p i)) < 24" using v b2 by (rule Move_entry_less)
  have "apply_move (apply_move (apply_move (apply_move s m) m) m) m ! i
          = s ! (?p (?p (?p (?p i))))"
    using v len i b1 b2 b3 by (simp add: apply_move_nth length_apply_move)
  also have "\<dots> = s ! i"
    using assms(2) i by (simp add: Move_order4_entry)
  finally show "apply_move (apply_move (apply_move (apply_move s m) m) m) m ! i = s ! i" .
qed

theorem C8_clockwise_order_four_witness:
  "apply_move (apply_move (apply_move (apply_move RubiksCube_ctor LC) LC) LC) LC = RubiksCube_ctor
   \<and> apply_move (apply_move RubiksCube_ctor LC) LC \<noteq> RubiksCube_ctor"
proof -
  have "length RubiksCube_ctor = NUMSLOTS" by (simp add: length_ctor NUMSLOTS_def)
  moreover have "LC = FC \<or> LC = LC \<or> LC = DC" by simp
  ultimately have
    "apply_move (apply_move (apply_move (apply_move RubiksCube_ctor LC) LC) LC) LC = RubiksCube_ctor"
    by (rule C8_clockwise_order_four)
  moreover have "apply_move (apply_move RubiksCube_ctor LC) LC \<noteq> RubiksCube_ctor" by code_simp
  ultimately show ?thesis by blast
qed

lemma Move_rows_sorted:
  "list_all (\<lambda>p. sort p = [0..<24]) Move"
  by code_simp

lemma mset_apply_move:
  assumes "length s = 24"
  shows "mset (apply_move s m) = mset s"
proof (cases "valid_move m")
  case False
  then show ?thesis by (simp add: apply_move_invalid)
next
  case True
  have "length Move = 6" using Move_rows_bound by simp
  then have "nat m < length Move" using True
    unfolding valid_move_def NUMMOVES_def by linarith
  then have "Move ! nat m \<in> set Move" by simp
  with Move_rows_sorted have srt: "sort (Move ! nat m) = [0..<24]"
    by (auto simp: list_all_iff)
  have len: "length (Move ! nat m) = 24"
    using arg_cong [OF srt, of length] by simp
  have "apply_move s m = map ((!) s) (map ((!) (Move ! nat m)) [0..<24])"
    using True assms by (simp add: apply_move_valid)
  also have "map ((!) (Move ! nat m)) [0..<24] = Move ! nat m"
    using len map_nth [of "Move ! nat m"] by simp
  finally have "mset (apply_move s m) = image_mset ((!) s) (mset (Move ! nat m))"
    by simp
  also have "mset (Move ! nat m) = mset (sort (Move ! nat m))" by simp
  also have "image_mset ((!) s) (mset (sort (Move ! nat m))) = mset (map ((!) s) [0..<length s])"
    using srt assms by simp
  also have "\<dots> = mset s" by (simp add: map_nth)
  finally show ?thesis .
qed

text \<open>
  Claim C7. Every cube reached from the constructed (solved) cube by a sequence of valid moves
  holds the same multiset of 24 facelet identities as the solved cube; a single valid move on
  any cube of 24 slots permutes the slot contents and leaves their multiset as it was.
\<close>

theorem C7_facelet_multiset_invariant:
  "(list_all valid_move ms \<longrightarrow> mset (replay RubiksCube_ctor ms) = mset RubiksCube_ctor)
   \<and> (length s = NUMSLOTS \<and> valid_move m \<longrightarrow> mset (apply_move s m) = mset s)"
proof -
  have "length (replay RubiksCube_ctor ms) = 24 \<and> mset (replay RubiksCube_ctor ms) = mset RubiksCube_ctor"
  proof (induction ms rule: rev_induct)
    case Nil
    then show ?case by (simp add: replay_Nil length_ctor)
  next
    case (snoc m ms)
    then show ?case by (simp add: replay_snoc length_apply_move mset_apply_move)
  qed
  then show ?thesis by (simp add: NUMSLOTS_def mset_apply_move)
qed

theorem C7_facelet_multiset_invariant_witness:
  "list_all valid_move [FC, LCC, DC]
   \<and> mset (replay RubiksCube_ctor [FC, LCC, DC]) = mset RubiksCube_ctor
   \<and> replay RubiksCube_ctor [FC, LCC, DC] \<noteq> RubiksCube_ctor
   \<and> length RubiksCube_ctor = NUMSLOTS \<and> valid_move DC
   \<and> mset (apply_move RubiksCube_ctor DC) = mset RubiksCube_ctor"
proof -
  have v: "list_all valid_move [FC, LCC, DC]" by (simp add: valid_move_def move_ids)
  have l: "length RubiksCube_ctor = NUMSLOTS" by (simp add: length_ctor NUMSLOTS_def)
  have d: "valid_move DC" by (simp add: valid_move_def move_ids)
  have n: "replay RubiksCube_ctor [FC, LCC, DC] \<noteq> RubiksCube_ctor" by code_simp
  show ?thesis
    using v l d n C7_facelet_multiset_invariant [of "[FC, LCC, DC]" RubiksCube_ctor DC]
    by blast
qed

text \<open>
  Claim C1 says that after \<open>apply_move\<close> slot \<open>Move[m][i]\<close> of the result holds what slot \<open>i\<close>
  held before, as the comment on the table says (the facelet at slot \<open>i\<close> ends up at slot
  \<open>Move[x][i]\<close>). The loop reads the table the other way round, \<open>mSlots[i] =
  oldSlots[Move[m][i]]\<close>: on the solved cube and the move FC, slot \<open>Move[FC][0] = 3\<close> of the
  result holds the identity 29 that slot 9 held, not the identity 20 of slot 0.
\<close>

theorem C1_apply_move_reads_table_backwards:
  "Move ! nat FC ! 0 = 3
   \<and> apply_move RubiksCube_ctor FC ! (Move ! nat FC ! 0) = 29
   \<and> RubiksCube_ctor ! 0 = 20
   \<and> RubiksCube_ctor ! 9 = 29
   \<and> apply_move RubiksCube_ctor FC ! 0 = RubiksCube_ctor ! (Move ! nat FC ! 0)"
  by code_simp

section \<open>The solved test\<close>

lemma is_solved_slots:
  "is_solved s \<longleftrightarrow>
     (let c = (\<lambda>i. get_facelet_color (s ! i)) in
      c 3 = c 0 \<and> c 6 = c 0 \<and> c 9 = c 0 \<and> c 15 = c 12 \<and> c 18 = c 12 \<and> c 21 = c 12
      \<and> c 4 = c 1 \<and> c 13 = c 1 \<and> c 16 = c 1 \<and> c 10 = c 7 \<and> c 19 = c 7 \<and> c 22 = c 7
      \<and> c 8 = c 2 \<and> c 14 = c 2 \<and> c 20 = c 2 \<and> c 11 = c 5 \<and> c 17 = c 5 \<and> c 23 = c 5)"
  unfolding is_solved_def get_slot_num_def Let_def
  by (simp, simp only: numeral_2_eq_2, blast)

lemma is_solved_colors_only:
  assumes "\<forall>i<NUMSLOTS. get_facelet_color (s ! i) = get_facelet_color (t ! i)"
  shows "is_solved s = is_solved t"
proof -
  have "get_facelet_color (s ! i) = get_facelet_color (t ! i)" if "i < 24" for i
    using assms that by (simp add: NUMSLOTS_def)
  then show ?thesis unfolding is_solved_slots Let_def by simp
qed

text \<open>
  Claim C5. \<open>is_solved s\<close> holds exactly when, for every cubelet position \<open>(x, y, z)\<close> and
  every face axis \<open>f\<close>, the primary colour in slot \<open>(x, y, z, f)\<close> is the primary colour in the
  reference slot of \<open>f\<close>: the coordinate along \<open>f\<close> kept and the other two set to 0. Only
  primary colours are read: two cubes whose slots agree in primary colour get the same answer,
  whatever the neighbour colours in their identities.
\<close>

theorem C5_is_solved_primary_colors:
  "(is_solved s \<longleftrightarrow>
      (\<forall>x\<in>{0, 1}. \<forall>y\<in>{0, 1}. \<forall>z\<in>{0, 1}.
          get_facelet_color (s ! get_slot_num x y z 0)
            = get_facelet_color (s ! get_slot_num x 0 0 0)
        \<and> get_facelet_color (s ! get_slot_num x y z 1)
            = get_facelet_color (s ! get_slot_num 0 y 0 1)
        \<and> get_facelet_color (s ! get_slot_num x y z 2)
            = get_facelet_color (s ! get_slot_num 0 0 z 2)))
   \<and> ((\<forall>i<NUMSLOTS. get_facelet_color (s ! i) = get_facelet_color (t ! i))
        \<longrightarrow> is_solved s = is_solved t)"
proof (intro conjI impI)
  show "is_solved s \<longleftrightarrow>
      (\<forall>x\<in>{0, 1}. \<forall>y\<in>{0, 1}. \<forall>z\<in>{0, 1}.
          get_facelet_color (s ! get_slot_num x y z 0)
            = get_facelet_color (s ! get_slot_num x 0 0 0)
        \<and> get_facelet_color (s ! get_slot_num x y z 1)
            = get_facelet_color (s ! get_slot_num 0 y 0 1)
        \<and> get_facelet_color (s ! get_slot_num x y z 2)
            = get_facelet_color (s ! get_slot_num 0 0 z 2))"
    unfolding is_solved_slots Let_def get_slot_num_def
    by (simp, simp only: numeral_2_eq_2, blast)
next
  assume "\<forall>i<NUMSLOTS. get_facelet_color (s ! i) = get_facelet_color (t ! i)"
  then show "is_solved s = is_solved t" by (rule is_solved_colors_only)
qed

theorem C5_is_solved_primary_colors_witness:
  "list_all (\<lambda>i. get_facelet_color (RubiksCube_ctor ! i)
        = get_facelet_color (map (\<lambda>w. w AND 448) RubiksCube_ctor ! i)) [0..<NUMSLOTS]
   \<and> map (\<lambda>w. w AND 448) RubiksCube_ctor \<noteq> RubiksCube_ctor
   \<and> is_solved RubiksCube_ctor
   \<and> is_solved (map (\<lambda>w. w AND 448) RubiksCube_ctor)
   \<and> \<not> is_solved (apply_move RubiksCube_ctor FC)
   \<and> get_facelet_color (apply_move RubiksCube_ctor FC ! get_slot_num 1 0 0 1)
        \<noteq> get_facelet_color (apply_move RubiksCube_ctor FC ! get_slot_num 0 0 0 1)"
proof -
  have l: "list_all (\<lambda>i. get_facelet_color (RubiksCube_ctor ! i)
        = get_facelet_color (map (\<lambda>w. w AND 448) RubiksCube_ctor ! i)) [0..<NUMSLOTS]"
    by code_simp
  then have h: "\<forall>i<NUMSLOTS. get_facelet_color (RubiksCube_ctor ! i)
        = get_facelet_color (map (\<lambda>w. w AND 448) RubiksCube_ctor ! i)"
    by (simp add: list_all_iff)
  have n: "map (\<lambda>w. w AND 448) RubiksCube_ctor \<noteq> RubiksCube_ctor" by code_simp
  have s: "is_solved RubiksCube_ctor" by code_simp
  have u: "get_facelet_color (apply_move RubiksCube_ctor FC ! get_slot_num 1 0 0 1)
        \<noteq> get_facelet_color (apply_move RubiksCube_ctor FC ! get_slot_num 0 0 0 1)"
    by code_simp
  have c: "(0::8 word) \<in> {0, 1}" "(1::8 word) \<in> {0, 1}" by simp_all
  from u c
    C5_is_solved_primary_colors [of "apply_move RubiksCube_ctor FC" RubiksCube_ctor, THEN conjunct1]
  have f: "\<not> is_solved (apply_move RubiksCube_ctor FC)" by blast
  from h s C5_is_solved_primary_colors [of RubiksCube_ctor "map (\<lambda>w. w AND 448) RubiksCube_ctor"]
  have "is_solved (map (\<lambda>w. w AND 448) RubiksCube_ctor)" by blast
  with l n s f u show ?thesis by blast
qed

section \<open>Move sequences and distances\<close>

lemma reach_0: "reach s 0 s"
  unfolding reach_def by (rule exI [of _ "[]"]) (simp add: replay_Nil)

lemma reach_Suc:
  assumes "reach s n w" "valid_move m"
  shows "reach s (Suc n) (apply_move w m)"
proof -
  from assms(1) obtain ms where "length ms = n" "list_all valid_move ms" "replay s ms = w"
    unfolding reach_def by blast
  with assms(2) have "length (ms @ [m]) = Suc n \<and> list_all valid_move (ms @ [m])
      \<and> replay s (ms @ [m]) = apply_move w m"
    by (simp add: replay_snoc)
  then show ?thesis unfolding reach_def by blast
qed

lemma reach_Suc_elim:
  assumes "reach s (Suc n) v"
  obtains w m where "reach s n w" "valid_move m" "v = apply_move w m"
proof -
  from assms obtain ms where ms: "length ms = Suc n" "list_all valid_move ms" "replay s ms = v"
    unfolding reach_def by blast
  then obtain ms' m where split: "ms = ms' @ [m]"
    by (cases ms rule: rev_cases) auto
  with ms have "reach s n (replay s ms')" "valid_move m" "v = apply_move (replay s ms') m"
    unfolding reach_def by (auto simp: replay_snoc)
  then show ?thesis by (rule that)
qed

lemma reach_length: "length s = 24 \<Longrightarrow> reach s n v \<Longrightarrow> length v = 24"
  unfolding reach_def by (auto simp: length_replay)

lemma reach_trans:
  assumes "reach s n v" "reach v k w"
  shows "reach s (n + k) w"
proof -
  from assms obtain ms ns where
    "length ms = n" "list_all valid_move ms" "replay s ms = v"
    "length ns = k" "list_all valid_move ns" "replay v ns = w"
    unfolding reach_def by blast
  then have "length (ms @ ns) = n + k \<and> list_all valid_move (ms @ ns) \<and> replay s (ms @ ns) = w"
    by (simp add: replay_append)
  then show ?thesis unfolding reach_def by blast
qed

lemma mdist_le: "reach s n v \<Longrightarrow> mdist s v \<le> n"
  unfolding mdist_def by (rule Least_le)

lemma reach_mdist: "reach s n v \<Longrightarrow> reach s (mdist s v) v"
  unfolding mdist_def by (rule LeastI)

lemma mdist_start: "mdist s s = 0"
  using mdist_le [OF reach_0] by simp

lemma mdist_step:
  assumes "reach s n w" "valid_move m"
  shows "mdist s (apply_move w m) \<le> Suc (mdist s w)"
  by (rule mdist_le, rule reach_Suc, rule reach_mdist, rule assms, rule assms)

text \<open>A cube other than the start has a predecessor one level below it.\<close>

lemma mdist_pred:
  assumes "reach s n v" "mdist s v = Suc k"
  obtains w m where "reach s k w" "mdist s w = k" "valid_move m" "v = apply_move w m"
proof -
  from assms have "reach s (Suc k) v" using reach_mdist by fastforce
  then obtain w m where w: "reach s k w" "valid_move m" "v = apply_move w m"
    by (rule reach_Suc_elim)
  have "mdist s w \<le> k" using w(1) by (rule mdist_le)
  moreover have "Suc k \<le> Suc (mdist s w)"
    using mdist_step [OF w(1) w(2)] w(3) assms(2) by simp
  ultimately have "mdist s w = k" by simp
  with w show ?thesis by (rule_tac that)
qed

text \<open>Moves can be undone, so reachability is symmetric.\<close>

lemma reach_sym:
  assumes "length s = 24" "reach s n v"
  shows "reach v n s"
  using assms(2)
proof (induction n arbitrary: v)
  case 0
  then have "v = s" unfolding reach_def by (simp add: replay_Nil)
  then show ?case by (simp add: reach_0)
next
  case (Suc n)
  from Suc.prems obtain w m where w: "reach s n w" "valid_move m" "v = apply_move w m"
    by (rule reach_Suc_elim)
  have lw: "length w = 24" using assms(1) w(1) by (rule reach_length)
  have undo: "apply_move v (inverse_move m) = w"
    using lw w(2,3) by (simp add: apply_move_inverse)
  have "reach v (Suc 0) w"
    using reach_Suc [OF reach_0 valid_inverse_move [OF w(2)], of v] undo by simp
  from reach_trans [OF this Suc.IH [OF w(1)]] show ?case by simp
qed

section \<open>Parent links\<close>

lemma rc_equal_iff:
  assumes "length a = 24" "length b = 24"
  shows "rc_equal a b \<longleftrightarrow> a = b"
  using assms unfolding rc_equal_def NUMSLOTS_def list_all_iff
  by (auto simp: list_eq_iff_nth_eq)

lemma links_mono:
  assumes "links P s v ms" "k \<notin> dom P"
  shows "links (P(k \<mapsto> e)) s v ms"
  using assms
proof (induction rule: links.induct)
  case at_start
  show ?case by (rule links.at_start)
next
  case (parent_link v p mv ms)
  from parent_link.hyps(2) parent_link.prems have "v \<noteq> k" by auto
  with parent_link.hyps(2) have "(P(k \<mapsto> e)) v = Some (p, mv)" by simp
  with parent_link.hyps(1) show ?case
    using parent_link.IH [OF parent_link.prems] by (rule links.parent_link)
qed

lemma follow_parents_links:
  assumes "links P s v ms" "length s = 24" "\<forall>k\<in>dom P. length k = 24"
  shows "follow_parents P s (parents_find P v) sol = Some (ms @ sol)"
  using assms(1)
proof (induction arbitrary: sol rule: links.induct)
  case at_start
  show ?case
  proof (cases "P s")
    case None
    then show ?thesis by (simp add: parents_find_def follow_parents.simps)
  next
    case (Some e)
    then have "length s = 24" using assms(2) by simp
    then have "rc_equal s s" by (simp add: rc_equal_iff)
    with Some show ?thesis
      by (cases e) (simp add: parents_find_def follow_parents.simps)
  qed
next
  case (parent_link v p mv ms)
  from parent_link.hyps(2) assms(3) have "length v = 24" by auto
  with parent_link.hyps(1) assms(2) have ne: "\<not> rc_equal v s" by (simp add: rc_equal_iff)
  have "follow_parents P s (parents_find P v) sol
          = follow_parents P s (parents_find P p) (mv # sol)"
    using parent_link.hyps(2) ne
    by (subst follow_parents.simps) (simp add: parents_find_def)
  also have "\<dots> = Some (ms @ mv # sol)" by (rule parent_link.IH)
  finally show ?case by simp
qed

section \<open>The invariant of the search\<close>

lemma recorded_reach:
  assumes "recorded s P" "v \<in> dom P"
  shows "reach s (mdist s v) v"
proof -
  from assms obtain ms where "list_all valid_move ms" "replay s ms = v" "length ms = mdist s v"
    unfolding recorded_def by blast
  then show ?thesis unfolding reach_def by blast
qed

lemma reach_0_eq: "reach s 0 v \<longleftrightarrow> v = s"
  unfolding reach_def by (auto simp: replay_Nil)

text \<open>Every cube below the current level has been taken from the frontier and expanded.\<close>

lemma below_level_expanded:
  assumes inv: "search_inv s d opn F P"
  shows "reach s n v \<Longrightarrow> mdist s v < d \<Longrightarrow> v \<in> dom P \<and> v \<notin> opn \<and> v \<notin> set F"
proof (induction k \<equiv> "mdist s v" arbitrary: v n)
  case 0
  from reach_mdist [OF "0.prems"(1)] "0.hyps" have "v = s" by (simp add: reach_0_eq)
  moreover have "s \<in> dom P" using inv unfolding search_inv_def recorded_def by blast
  moreover have "s \<notin> opn"
    using inv "0.prems"(2) \<open>v = s\<close> unfolding search_inv_def queue_ok_def by auto
  moreover have "s \<notin> set F"
    using inv "0.prems"(2) \<open>v = s\<close> unfolding search_inv_def queue_ok_def by auto
  ultimately show ?case by simp
next
  case (Suc k)
  from Suc.prems(1) Suc.hyps(2) [symmetric]
  obtain w m where w: "reach s k w" "mdist s w = k" "valid_move m" "v = apply_move w m"
    by (rule mdist_pred)
  have "mdist s w < d" using w(2) Suc.hyps(2) Suc.prems(2) by simp
  with Suc.hyps(1) [OF w(2) [symmetric] w(1)]
  have "w \<in> dom P" "w \<notin> opn" "w \<notin> set F" by simp_all
  with inv w(3) have "apply_move w m \<in> dom P"
    unfolding search_inv_def expanded_ok_def by blast
  moreover have "v \<notin> opn"
    using inv Suc.prems(2) unfolding search_inv_def queue_ok_def by auto
  moreover have "v \<notin> set F"
    using inv Suc.prems(2) unfolding search_inv_def queue_ok_def by auto
  ultimately show ?case using w(4) by simp
qed

text \<open>The invariant at the start of \<open>get_solution\<close>.\<close>

lemma search_inv_init:
  assumes "length s = 24"
  shows "search_inv s 0 {} [s] [s \<mapsto> (s, NUMMOVES)]"
proof -
  have "links [s \<mapsto> (s, NUMMOVES)] s s []" by (rule links.at_start)
  then have "recorded s [s \<mapsto> (s, NUMMOVES)]"
    unfolding recorded_def using assms
    by (auto simp: replay_Nil mdist_start intro!: exI [of _ "[]"])
  moreover have "queue_ok s 0 {} [s] [s \<mapsto> (s, NUMMOVES)]"
    unfolding queue_ok_def by (simp add: mdist_start)
  moreover have "expanded_ok s 0 {} [s] [s \<mapsto> (s, NUMMOVES)]"
    unfolding expanded_ok_def by simp
  ultimately show ?thesis unfolding search_inv_def by simp
qed

text \<open>Taking the head of the frontier.\<close>

lemma search_inv_pop:
  assumes "search_inv s d {} (u # F) P"
  shows "search_inv s (mdist s u) {u} F P"
proof -
  from assms have rec: "recorded s P" and q: "queue_ok s d {} (u # F) P"
    and e: "expanded_ok s d {} (u # F) P"
    unfolding search_inv_def by simp_all
  from q have du: "d \<le> mdist s u" "mdist s u \<le> d + 1"
    and srt: "\<forall>v\<in>set F. mdist s u \<le> mdist s v"
    and up: "\<forall>v\<in>set F. mdist s v \<le> d + 1"
    unfolding queue_ok_def by auto
  have "queue_ok s (mdist s u) {u} F P"
    using q du srt up unfolding queue_ok_def by auto
  moreover have "expanded_ok s (mdist s u) {u} F P"
    using e du unfolding expanded_ok_def by auto
  ultimately show ?thesis using rec unfolding search_inv_def by simp
qed

text \<open>Closing a cube whose successors have all been generated.\<close>

lemma search_inv_close:
  assumes "search_inv s d {u} F P" "\<not> is_solved u"
    "\<forall>m. valid_move m \<longrightarrow> apply_move u m \<in> dom P"
  shows "search_inv s d {} F P"
proof -
  from assms(1) have rec: "recorded s P" and q: "queue_ok s d {u} F P"
    and e: "expanded_ok s d {u} F P"
    unfolding search_inv_def by simp_all
  have "queue_ok s d {} F P" using q unfolding queue_ok_def by simp
  moreover have "expanded_ok s d {} F P"
    unfolding expanded_ok_def
  proof (intro ballI impI)
    fix v assume v: "v \<in> dom P" "v \<notin> set F"
    show "\<not> is_solved v \<and> mdist s v \<le> d
            \<and> (\<forall>m. valid_move m \<longrightarrow> apply_move v m \<in> dom P)"
    proof (cases "v = u")
      case True
      with q have "mdist s v = d" unfolding queue_ok_def by simp
      with True assms(2,3) show ?thesis by simp
    next
      case False
      with e v show ?thesis unfolding expanded_ok_def by simp
    qed
  qed
  ultimately show ?thesis using rec unfolding search_inv_def by simp
qed

text \<open>Generating one successor of the open cube.\<close>

lemma visit_seen:
  assumes "apply_move u m \<in> dom P"
  shows "visit u m (F, P) = (F, P)"
  using assms unfolding visit_def parents_find_def by (auto simp: Let_def)

lemma visit_new:
  assumes "apply_move u m \<notin> dom P"
  shows "visit u m (F, P) = (F @ [apply_move u m], P(apply_move u m \<mapsto> (u, m)))"
  using assms unfolding visit_def parents_find_def by (auto simp: Let_def)

lemma new_successor_level:
  assumes inv: "search_inv s d {u} F P" and m: "valid_move m"
    and new: "apply_move u m \<notin> dom P"
  shows "mdist s (apply_move u m) = d + 1"
proof -
  let ?v = "apply_move u m"
  from inv have rec: "recorded s P" and q: "queue_ok s d {u} F P"
    unfolding search_inv_def by simp_all
  from q have u: "u \<in> dom P" "mdist s u = d" unfolding queue_ok_def by simp_all
  have ru: "reach s d u" using recorded_reach [OF rec u(1)] u(2) by simp
  have rv: "reach s (Suc d) ?v" using ru m by (rule reach_Suc)
  then have le: "mdist s ?v \<le> d + 1" using mdist_le by fastforce
  have "\<not> mdist s ?v \<le> d"
  proof
    assume low: "mdist s ?v \<le> d"
    show False
    proof (cases "mdist s ?v")
      case 0
      with reach_mdist [OF rv] have "?v = s" by (simp add: reach_0_eq)
      moreover have "s \<in> dom P" using rec unfolding recorded_def by simp
      ultimately show False using new by simp
    next
      case (Suc k)
      with rv obtain w m' where
        w: "reach s k w" "mdist s w = k" "valid_move m'" "?v = apply_move w m'"
        by (rule mdist_pred)
      have "mdist s w < d" using w(2) Suc low by simp
      with below_level_expanded [OF inv w(1)]
      have "w \<in> dom P" "w \<notin> {u}" "w \<notin> set F" by simp_all
      with inv w(3) have "apply_move w m' \<in> dom P"
        unfolding search_inv_def expanded_ok_def by blast
      with w(4) new show False by simp
    qed
  qed
  with le show ?thesis by simp
qed

lemma visit_new_inv:
  assumes inv: "search_inv s d {u} F P" and m: "valid_move m"
    and new: "apply_move u m \<notin> dom P"
  shows "search_inv s d {u} (F @ [apply_move u m]) (P(apply_move u m \<mapsto> (u, m)))"
proof -
  let ?v = "apply_move u m"
  let ?P = "P(?v \<mapsto> (u, m))"
  from inv have rec: "recorded s P" and q: "queue_ok s d {u} F P"
    and e: "expanded_ok s d {u} F P"
    unfolding search_inv_def by simp_all
  from q have u: "u \<in> dom P" "mdist s u = d" "u \<notin> set F" unfolding queue_ok_def by auto
  from q have F: "set F \<subseteq> dom P" "distinct F" "sorted (map (mdist s) F)"
    "\<forall>x\<in>set F. d \<le> mdist s x \<and> mdist s x \<le> d + 1"
    unfolding queue_ok_def by auto
  have lv: "mdist s ?v = d + 1" using inv m new by (rule new_successor_level)
  have s: "length s = 24" "s \<in> dom P" using rec unfolding recorded_def by simp_all
  have vs: "?v \<noteq> s" using s(2) new by auto
  have vu: "?v \<noteq> u" using u(1) new by auto
  have vF: "?v \<notin> set F" using F(1) new by auto

  have "recorded s ?P"
    unfolding recorded_def
  proof (intro conjI ballI)
    show "length s = 24" by (rule s(1))
    show "s \<in> dom ?P" using s(2) by simp
    fix x assume x: "x \<in> dom ?P"
    show "\<exists>ms. links ?P s x ms \<and> list_all valid_move ms \<and> replay s ms = x
            \<and> length ms = mdist s x"
    proof (cases "x = ?v")
      case False
      with x have "x \<in> dom P" by simp
      with rec obtain ms where ms: "links P s x ms" "list_all valid_move ms" "replay s ms = x"
        "length ms = mdist s x"
        unfolding recorded_def by blast
      from links_mono [OF ms(1) new] ms(2-) show ?thesis by blast
    next
      case True
      from rec u(1) obtain ms where ms: "links P s u ms" "list_all valid_move ms"
        "replay s ms = u" "length ms = mdist s u"
        unfolding recorded_def by blast
      have "?P ?v = Some (u, m)" by simp
      with vs have "links ?P s ?v (ms @ [m])"
        using links_mono [OF ms(1) new] by (rule links.parent_link)
      moreover have "list_all valid_move (ms @ [m])" using ms(2) m by simp
      moreover have "replay s (ms @ [m]) = ?v" using ms(3) by (simp add: replay_snoc)
      moreover have "length (ms @ [m]) = mdist s ?v" using ms(4) u(2) lv by simp
      ultimately show ?thesis using True by blast
    qed
  qed
  moreover have "queue_ok s d {u} (F @ [?v]) ?P"
    unfolding queue_ok_def
  proof (intro conjI)
    show "set (F @ [?v]) \<subseteq> dom ?P" using F(1) by auto
    show "distinct (F @ [?v])" using F(2) vF by simp
    show "{u} \<subseteq> dom ?P" using u(1) by simp
    show "{u} \<inter> set (F @ [?v]) = {}" using u(3) vu by auto
    show "sorted (map (mdist s) (F @ [?v]))"
      using F(3,4) lv by (auto simp: sorted_append)
    show "\<forall>x\<in>set (F @ [?v]). d \<le> mdist s x \<and> mdist s x \<le> d + 1"
      using F(4) lv by auto
    show "\<forall>x\<in>{u}. mdist s x = d" using u(2) by simp
  qed
  moreover have "expanded_ok s d {u} (F @ [?v]) ?P"
    unfolding expanded_ok_def
  proof (intro ballI impI)
    fix x assume x: "x \<in> dom ?P" "x \<notin> {u}" "x \<notin> set (F @ [?v])"
    then have "x \<in> dom P" "x \<notin> {u}" "x \<notin> set F" by auto
    with e have "\<not> is_solved x \<and> mdist s x \<le> d
        \<and> (\<forall>m. valid_move m \<longrightarrow> apply_move x m \<in> dom P)"
      unfolding expanded_ok_def by blast
    then show "\<not> is_solved x \<and> mdist s x \<le> d
        \<and> (\<forall>m. valid_move m \<longrightarrow> apply_move x m \<in> dom ?P)"
      by auto
  qed
  ultimately show ?thesis unfolding search_inv_def by simp
qed

text \<open>The loop over the moves: the invariant is kept, the map and the set of closed cubes
  only grow, and every move of the list has its successor in the map afterwards.\<close>

lemma fold_visit_inv:
  assumes "search_inv s d {u} F P" "list_all valid_move ms"
  shows "\<exists>F' P'. fold (visit u) ms (F, P) = (F', P') \<and> search_inv s d {u} F' P'
           \<and> dom P \<subseteq> dom P' \<and> dom P - set F \<subseteq> dom P' - set F'
           \<and> (\<forall>m\<in>set ms. apply_move u m \<in> dom P')"
  using assms
proof (induction ms arbitrary: F P)
  case Nil
  then show ?case by simp
next
  case (Cons m ms)
  from Cons.prems(2) have m: "valid_move m" and ms: "list_all valid_move ms" by simp_all
  let ?v = "apply_move u m"
  obtain F1 P1 where step: "visit u m (F, P) = (F1, P1)" by (cases "visit u m (F, P)")
  have one: "search_inv s d {u} F1 P1 \<and> dom P \<subseteq> dom P1 \<and> dom P - set F \<subseteq> dom P1 - set F1
      \<and> ?v \<in> dom P1"
  proof (cases "?v \<in> dom P")
    case True
    with step have "F1 = F" "P1 = P" by (simp_all add: visit_seen)
    with Cons.prems(1) True show ?thesis by simp
  next
    case False
    with step have eq: "F1 = F @ [?v]" "P1 = P(?v \<mapsto> (u, m))" by (simp_all add: visit_new)
    have "search_inv s d {u} F1 P1"
      unfolding eq using Cons.prems(1) m False by (rule visit_new_inv)
    moreover have "dom P - set F \<subseteq> dom P1 - set F1" using False unfolding eq by auto
    ultimately show ?thesis unfolding eq by auto
  qed
  from Cons.IH [OF conjunct1 [OF one] ms]
  obtain F' P' where rest: "fold (visit u) ms (F1, P1) = (F', P')" "search_inv s d {u} F' P'"
    "dom P1 \<subseteq> dom P'" "dom P1 - set F1 \<subseteq> dom P' - set F'"
    "\<forall>m\<in>set ms. apply_move u m \<in> dom P'"
    by blast
  have "fold (visit u) (m # ms) (F, P) = (F', P')" using step rest(1) by simp
  moreover have "dom P \<subseteq> dom P'" using one rest(3) by blast
  moreover have "dom P - set F \<subseteq> dom P' - set F'" using one rest(4) by blast
  moreover have "\<forall>m\<in>set (m # ms). apply_move u m \<in> dom P'" using one rest(3,5) by auto
  ultimately show ?case using rest(2) by blast
qed

lemma expand_visit: "expand u fp = fold (visit u) [0, 1, 2, 3, 4, 5] fp"
proof -
  have "[0..NUMMOVES - 1] = [0, 1, 2, 3, 4, 5]"
    unfolding NUMMOVES_def by (simp add: upto_rec1)
  moreover have "visit u = (\<lambda>m (frontier, parents).
             let v = apply_move u m
             in if parents_find parents v = None
                then (frontier @ [v], parents(v \<mapsto> (u, m)))
                else (frontier, parents))"
    by (intro ext) (simp add: visit_def)
  ultimately show ?thesis unfolding expand_def by simp
qed

text \<open>One iteration of the outer loop on an unsolved head.\<close>

lemma expand_inv:
  assumes inv: "search_inv s d {} (u # F) P" and unsolved: "\<not> is_solved u"
  shows "\<exists>F' P'. expand u (F, P) = (F', P') \<and> search_inv s (mdist s u) {} F' P'
           \<and> insert u (dom P - set (u # F)) \<subseteq> dom P' - set F'"
proof -
  have v: "list_all valid_move [0, 1, 2, 3, 4, 5]"
    by (simp add: valid_move_def NUMMOVES_def)
  have all: "m \<in> set [0, 1, 2, 3, 4, 5]" if "valid_move m" for m
    using that unfolding valid_move_def NUMMOVES_def by auto
  from fold_visit_inv [OF search_inv_pop [OF inv] v]
  obtain F' P' where r: "fold (visit u) [0, 1, 2, 3, 4, 5] (F, P) = (F', P')"
    "search_inv s (mdist s u) {u} F' P'" "dom P \<subseteq> dom P'" "dom P - set F \<subseteq> dom P' - set F'"
    "\<forall>m\<in>set [0, 1, 2, 3, 4, 5]. apply_move u m \<in> dom P'"
    by blast
  have "\<forall>m. valid_move m \<longrightarrow> apply_move u m \<in> dom P'" using r(5) all by blast
  with r(2) unsolved have "search_inv s (mdist s u) {} F' P'" by (rule search_inv_close)
  moreover from inv have "u \<in> dom P" "u \<notin> set F"
    unfolding search_inv_def queue_ok_def by auto
  then have "insert u (dom P - set (u # F)) \<subseteq> dom P' - set F'" using r(4) by auto
  ultimately show ?thesis using r(1) by (auto simp: expand_visit)
qed

section \<open>The search ends and finds a nearest solved cube\<close>

lemma mset_replay:
  assumes "length s = 24"
  shows "length (replay s ms) = 24 \<and> mset (replay s ms) = mset s"
proof (induction ms rule: rev_induct)
  case Nil
  then show ?case using assms by (simp add: replay_Nil)
next
  case (snoc m ms)
  then show ?case by (simp add: replay_snoc length_apply_move mset_apply_move)
qed

text \<open>The cubes that can occur in a search from \<open>s\<close>: rearrangements of the slots of \<open>s\<close>.\<close>

lemma finite_rearrangements: "finite {v. mset v = mset (s :: RubiksCube)}"
proof -
  have "{v. mset v = mset s} \<subseteq> {v. set v \<subseteq> set s \<and> length v = length s}"
    by (auto dest: mset_eq_setD mset_eq_length)
  moreover have "finite {v. set v \<subseteq> set s \<and> length v = length s}"
    by (rule finite_lists_length_eq) simp
  ultimately show ?thesis by (rule finite_subset)
qed

lemma recorded_rearrangement:
  assumes "recorded s P" "v \<in> dom P"
  shows "mset v = mset s" "length v = 24"
proof -
  from assms obtain ms where "replay s ms = v" unfolding recorded_def by blast
  moreover have "length s = 24" using assms(1) unfolding recorded_def by simp
  ultimately show "mset v = mset s" "length v = 24" using mset_replay [of s ms] by simp_all
qed

text \<open>With an empty frontier every cube that can be reached is in the map and unsolved.\<close>

lemma empty_frontier_closed:
  assumes inv: "search_inv s d {} [] P"
  shows "reach s n t \<Longrightarrow> t \<in> dom P \<and> \<not> is_solved t"
proof (induction n arbitrary: t)
  case 0
  then have "t = s" by (simp add: reach_0_eq)
  moreover have "s \<in> dom P" using inv unfolding search_inv_def recorded_def by simp
  ultimately show ?case using inv unfolding search_inv_def expanded_ok_def by simp
next
  case (Suc n)
  from Suc.prems obtain w m where w: "reach s n w" "valid_move m" "t = apply_move w m"
    by (rule reach_Suc_elim)
  from Suc.IH [OF w(1)] have "w \<in> dom P" by simp
  with inv w(2) have "apply_move w m \<in> dom P"
    unfolding search_inv_def expanded_ok_def by simp
  with w(3) show ?case using inv unfolding search_inv_def expanded_ok_def by simp
qed

lemma bfs_loop_finds:
  assumes solvable: "reach s n t" "is_solved t"
  shows "search_inv s d {} F P \<Longrightarrow>
     \<exists>u P'. bfs_loop F P = Some (parents_find P' u, P') \<and> recorded s P' \<and> u \<in> dom P'
       \<and> is_solved u
       \<and> (\<forall>n' t'. reach s n' t' \<and> is_solved t' \<longrightarrow> mdist s u \<le> mdist s t')"
proof (induction k \<equiv> "card ({v. mset v = mset s} - (dom P - set F))" arbitrary: d F P
    rule: less_induct)
  case less
  note inv = less.prems
  show ?case
  proof (cases F)
    case Nil
    with inv empty_frontier_closed [of s d P n t] solvable show ?thesis by simp
  next
    case (Cons u F')
    note inv' = inv [unfolded Cons]
    have pop: "search_inv s (mdist s u) {u} F' P" using inv' by (rule search_inv_pop)
    have rec: "recorded s P" using inv unfolding search_inv_def by simp
    have u: "u \<in> dom P" "u \<notin> set F'" using inv' unfolding search_inv_def queue_ok_def by auto
    show ?thesis
    proof (cases "is_solved u")
      case True
      have run: "bfs_loop F P = Some (parents_find P u, P)"
        unfolding Cons using True by (subst bfs_loop.simps) simp
      have "mdist s u \<le> mdist s t'" if t': "reach s n' t'" "is_solved t'" for n' t'
      proof (rule ccontr)
        assume "\<not> mdist s u \<le> mdist s t'"
        then have "mdist s t' < mdist s u" by simp
        with below_level_expanded [OF pop t'(1)]
        have "t' \<in> dom P" "t' \<notin> {u}" "t' \<notin> set F'" by simp_all
        with pop have "\<not> is_solved t'" unfolding search_inv_def expanded_ok_def by blast
        with t'(2) show False by simp
      qed
      with run rec u(1) True show ?thesis by blast
    next
      case False
      from expand_inv [OF inv' False]
      obtain F'' P'' where ex: "expand u (F', P) = (F'', P'')"
        "search_inv s (mdist s u) {} F'' P''"
        "insert u (dom P - set (u # F')) \<subseteq> dom P'' - set F''"
        by blast
      have run: "bfs_loop F P = bfs_loop F'' P''"
        unfolding Cons using False ex(1) by (subst bfs_loop.simps) simp
      have "u \<in> {v. mset v = mset s}" using recorded_rearrangement(1) [OF rec u(1)] by simp
      moreover have "u \<notin> dom P - set F" unfolding Cons by simp
      moreover have "u \<in> dom P'' - set F''" using ex(3) by simp
      ultimately have "{v. mset v = mset s} - (dom P'' - set F'')
          \<subset> {v. mset v = mset s} - (dom P - set F)"
        using ex(3) unfolding Cons by blast
      moreover have "finite ({v. mset v = mset s} - (dom P - set F))"
        using finite_rearrangements by simp
      ultimately have "card ({v. mset v = mset s} - (dom P'' - set F''))
          < card ({v. mset v = mset s} - (dom P - set F))"
        by (simp add: psubset_card_mono)
      from less.hyps [OF this ex(2)] run show ?thesis by simp
    qed
  qed
qed

text \<open>\<open>get_solution\<close> on a cube from which a solved cube can be reached: it returns, the moves
  it returns are valid and lead to a solved cube, and no sequence of valid moves that leads
  to a solved cube is shorter.\<close>

lemma get_solution_shortest:
  assumes len: "length s = 24" and solvable: "reach s n t" "is_solved t"
  shows "\<exists>sol. get_solution s [] = Some sol \<and> list_all valid_move sol
           \<and> is_solved (replay s sol)
           \<and> (\<forall>ns. list_all valid_move ns \<and> is_solved (replay s ns) \<longrightarrow> length sol \<le> length ns)"
proof -
  from bfs_loop_finds [OF solvable search_inv_init [OF len]]
  obtain u P where r: "bfs_loop [s] [s \<mapsto> (s, NUMMOVES)] = Some (parents_find P u, P)"
    "recorded s P" "u \<in> dom P" "is_solved u"
    "\<forall>n' t'. reach s n' t' \<and> is_solved t' \<longrightarrow> mdist s u \<le> mdist s t'"
    by blast
  from r(2,3) obtain ms where ms: "links P s u ms" "list_all valid_move ms" "replay s ms = u"
    "length ms = mdist s u"
    unfolding recorded_def by blast
  have "\<forall>k\<in>dom P. length k = 24" using recorded_rearrangement(2) [OF r(2)] by simp
  with ms(1) len have "follow_parents P s (parents_find P u) [] = Some (ms @ [])"
    by (rule follow_parents_links)
  with r(1) have "get_solution s [] = Some ms" unfolding get_solution_def by simp
  moreover have "length ms \<le> length ns"
    if ns: "list_all valid_move ns" "is_solved (replay s ns)" for ns
  proof -
    have reach: "reach s (length ns) (replay s ns)" using ns(1) unfolding reach_def by blast
    with r(5) ns(2) have "mdist s u \<le> mdist s (replay s ns)" by blast
    also have "\<dots> \<le> length ns" using reach by (rule mdist_le)
    finally show ?thesis using ms(4) by simp
  qed
  ultimately show ?thesis using ms(2,3) r(4) by auto
qed

section \<open>The solved cube is the only solved cube that can be reached\<close>

lemma coherent_ctor: "coherent RubiksCube_ctor"
proof -
  have "list_all (\<lambda>i. facelet_cubelet (RubiksCube_ctor ! i)
           = facelet_cubelet (RubiksCube_ctor ! (3 * (i div 3)))) [0..<24]"
    by code_simp
  then show ?thesis unfolding coherent_def by (simp add: length_ctor)
qed

lemma Move_rows_cubelets:
  "list_all (\<lambda>p. p ! 21 = 21 \<and> p ! 22 = 22 \<and> p ! 23 = 23
       \<and> list_all (\<lambda>i. (p ! i) div 3 = (p ! (3 * (i div 3))) div 3) [0..<24]) Move"
  by code_simp

lemma coherent_cubelet:
  assumes "coherent s" "i < 24"
  shows "facelet_cubelet (s ! i) = facelet_cubelet (s ! (3 * (i div 3)))"
proof -
  from assms(1)
  have "\<forall>i\<in>set [0..<24]. facelet_cubelet (s ! i) = facelet_cubelet (s ! (3 * (i div 3)))"
    unfolding coherent_def list_all_iff by (elim conjE)
  moreover have "i \<in> set [0..<24]" using assms(2) by simp
  ultimately show ?thesis by (rule bspec)
qed

lemma coherent_apply_move:
  assumes coh: "coherent s" and m: "valid_move m"
  shows "coherent (apply_move s m)"
proof -
  let ?p = "Move ! nat m"
  have len: "length s = 24" using coh unfolding coherent_def by simp
  have "length Move = 6" using Move_rows_bound by simp
  then have "nat m < length Move" using m unfolding valid_move_def NUMMOVES_def by linarith
  then have "?p \<in> set Move" by simp
  with Move_rows_cubelets
  have row: "?p ! 21 = 21 \<and> ?p ! 22 = 22 \<and> ?p ! 23 = 23
      \<and> (\<forall>i\<in>set [0..<24]. (?p ! i) div 3 = (?p ! (3 * (i div 3))) div 3)"
    unfolding list_all_iff by (rule bspec)
  then have fixed: "?p ! 21 = 21" "?p ! 22 = 22" "?p ! 23 = 23" by blast+
  have tri: "(?p ! i) div 3 = (?p ! (3 * (i div 3))) div 3" if "i < 24" for i
  proof -
    from row have "\<forall>i\<in>set [0..<24]. (?p ! i) div 3 = (?p ! (3 * (i div 3))) div 3"
      by (elim conjE)
    moreover have "i \<in> set [0..<24]" using that by simp
    ultimately show ?thesis by (rule bspec)
  qed
  have nth: "apply_move s m ! i = s ! (?p ! i)" if "i < 24" for i
    using m len that by (rule apply_move_nth)
  have cub: "facelet_cubelet (apply_move s m ! i)
          = facelet_cubelet (apply_move s m ! (3 * (i div 3)))" if i: "i < 24" for i
  proof -
    have j: "3 * (i div 3) < 24" using i by simp
    have b1: "?p ! i < 24" using m i by (rule Move_entry_less)
    have b2: "?p ! (3 * (i div 3)) < 24" using m j by (rule Move_entry_less)
    have "facelet_cubelet (apply_move s m ! i) = facelet_cubelet (s ! (?p ! i))"
      using nth [OF i] by simp
    also have "\<dots> = facelet_cubelet (s ! (3 * ((?p ! i) div 3)))"
      using coh b1 by (rule coherent_cubelet)
    also have "\<dots> = facelet_cubelet (s ! (3 * ((?p ! (3 * (i div 3))) div 3)))"
      using tri [OF i] by simp
    also have "\<dots> = facelet_cubelet (s ! (?p ! (3 * (i div 3))))"
      using coherent_cubelet [OF coh b2] by simp
    also have "\<dots> = facelet_cubelet (apply_move s m ! (3 * (i div 3)))"
      using nth [OF j] by simp
    finally show ?thesis .
  qed
  have "list_all (\<lambda>i. facelet_cubelet (apply_move s m ! i)
          = facelet_cubelet (apply_move s m ! (3 * (i div 3)))) [0..<24]"
    unfolding list_all_iff
  proof (intro ballI)
    fix i :: nat assume "i \<in> set [0..<24]"
    then have "i < 24" by simp
    then show "facelet_cubelet (apply_move s m ! i)
          = facelet_cubelet (apply_move s m ! (3 * (i div 3)))"
      by (rule cub)
  qed
  moreover have "apply_move s m ! 21 = RubiksCube_ctor ! 21"
    "apply_move s m ! 22 = RubiksCube_ctor ! 22" "apply_move s m ! 23 = RubiksCube_ctor ! 23"
    using coh nth [of 21] nth [of 22] nth [of 23] fixed unfolding coherent_def by simp_all
  moreover have "mset (apply_move s m) = mset RubiksCube_ctor"
    using coh mset_apply_move [OF len, of m] unfolding coherent_def by simp
  ultimately show ?thesis unfolding coherent_def using len by (simp add: length_apply_move)
qed

lemma reach_coherent: "reach RubiksCube_ctor n t \<Longrightarrow> coherent t"
proof (induction n arbitrary: t)
  case 0
  then show ?case by (simp add: reach_0_eq coherent_ctor)
next
  case (Suc n)
  from Suc.prems obtain w m where w: "reach RubiksCube_ctor n w" "valid_move m"
    "t = apply_move w m"
    by (rule reach_Suc_elim)
  from Suc.IH [OF w(1)] w(2) show ?case unfolding w(3) by (rule coherent_apply_move)
qed

text \<open>Each facelet of the solved cube sits in the slot given by its cubelet and the axis of
  its primary colour, and its cubelet lies on the side of that axis its colour names.\<close>

lemma ctor_facelets:
  "list_all (\<lambda>f. f = RubiksCube_ctor ! (3 * facelet_cubelet f + get_facelet_color f div 2)
       \<and> facelet_cubelet f < 8 \<and> get_facelet_color f < 6
       \<and> facelet_cubelet f div (4 div 2 ^ (get_facelet_color f div 2)) mod 2
           = get_facelet_color f mod 2) RubiksCube_ctor"
  by code_simp

lemma distinct_ctor: "distinct RubiksCube_ctor"
  by (simp add: ctor_table)

lemma coherent_home:
  assumes "coherent s" "i < 24"
  shows "s ! i = RubiksCube_ctor ! (3 * facelet_cubelet (s ! i) + get_facelet_color (s ! i) div 2)"
    and "facelet_cubelet (s ! i) < 8" and "get_facelet_color (s ! i) < 6"
    and "facelet_cubelet (s ! i) div (4 div 2 ^ (get_facelet_color (s ! i) div 2)) mod 2
           = get_facelet_color (s ! i) mod 2"
proof -
  from assms have "s ! i \<in> set s" unfolding coherent_def by simp
  moreover have "set s = set RubiksCube_ctor"
    using assms(1) unfolding coherent_def by (auto dest: mset_eq_setD)
  ultimately have "s ! i \<in> set RubiksCube_ctor" by simp
  with ctor_facelets
  show "s ! i = RubiksCube_ctor ! (3 * facelet_cubelet (s ! i) + get_facelet_color (s ! i) div 2)"
    and "facelet_cubelet (s ! i) < 8" and "get_facelet_color (s ! i) < 6"
    and "facelet_cubelet (s ! i) div (4 div 2 ^ (get_facelet_color (s ! i) div 2)) mod 2
           = get_facelet_color (s ! i) mod 2"
    unfolding list_all_iff by blast+
qed

lemma coherent_distinct_slots:
  assumes "coherent s" "i < 24" "j < 24" "s ! i = s ! j"
  shows "i = j"
proof -
  have "distinct s"
    using assms(1) distinct_ctor mset_eq_imp_distinct_iff [of s RubiksCube_ctor]
    unfolding coherent_def by blast
  moreover have "length s = 24" using assms(1) unfolding coherent_def by simp
  ultimately show ?thesis using assms(2-) by (simp add: nth_eq_iff_index_eq)
qed

lemma ctor_slot_inject:
  assumes "a < 24" "b < 24" "RubiksCube_ctor ! a = RubiksCube_ctor ! b"
  shows "a = b"
  using assms distinct_ctor length_ctor by (simp add: nth_eq_iff_index_eq)

lemma below_8: "(k::nat) < 8 \<Longrightarrow> k = 0 \<or> k = 1 \<or> k = 2 \<or> k = 3 \<or> k = 4 \<or> k = 5 \<or> k = 6 \<or> k = 7"
  by linarith

lemma three_bits_sum:
  assumes "(k::nat) < 8"
  shows "k = 4 * (k div 4 mod 2) + 2 * (k div 2 mod 2) + k mod 2"
  using below_8 [OF assms] by (elim disjE) simp_all

lemma three_bits:
  fixes k c :: nat
  assumes "k < 8" "c < 8" "k div 4 mod 2 = c div 4 mod 2" "k div 2 mod 2 = c div 2 mod 2"
    "k mod 2 = c mod 2"
  shows "k = c"
proof -
  have "k = 4 * (k div 4 mod 2) + 2 * (k div 2 mod 2) + k mod 2"
    using assms(1) by (rule three_bits_sum)
  also have "\<dots> = 4 * (c div 4 mod 2) + 2 * (c div 2 mod 2) + c mod 2"
    unfolding assms(3-5) ..
  also have "\<dots> = c" using assms(2) by (rule three_bits_sum [symmetric])
  finally show ?thesis .
qed

text \<open>A position whose three slots show the colours of the solved cube holds the facelets
  of the solved cube.\<close>

lemma solved_cubelet:
  assumes coh: "coherent s" and c: "c < 8"
    and cols: "get_facelet_color (s ! (3 * c)) = c div 4 mod 2"
      "get_facelet_color (s ! (3 * c + 1)) = 2 + c div 2 mod 2"
      "get_facelet_color (s ! (3 * c + 2)) = 4 + c mod 2"
  shows "s ! (3 * c) = RubiksCube_ctor ! (3 * c)"
    and "s ! (3 * c + 1) = RubiksCube_ctor ! (3 * c + 1)"
    and "s ! (3 * c + 2) = RubiksCube_ctor ! (3 * c + 2)"
proof -
  let ?K = "facelet_cubelet (s ! (3 * c))"
  have i: "3 * c < 24" "3 * c + 1 < 24" "3 * c + 2 < 24" using c by simp_all
  have d: "(3 * c) div 3 = c" "(3 * c + 1) div 3 = c" "(3 * c + 2) div 3 = c" by simp_all
  have k1: "facelet_cubelet (s ! (3 * c + 1)) = ?K"
    using coherent_cubelet [OF coh i(2)] unfolding d .
  have k2: "facelet_cubelet (s ! (3 * c + 2)) = ?K"
    using coherent_cubelet [OF coh i(3)] unfolding d .
  note h0 = coherent_home [OF coh i(1)]
  note h1 = coherent_home [OF coh i(2)]
  note h2 = coherent_home [OF coh i(3)]
  have a0: "(c div 4 mod 2) div 2 = 0" "(c div 4 mod 2) mod 2 = c div 4 mod 2" by simp_all
  have a1: "(2 + c div 2 mod 2) div 2 = 1" "(2 + c div 2 mod 2) mod 2 = c div 2 mod 2"
    by presburger+
  have a2: "(4 + c mod 2) div 2 = 2" "(4 + c mod 2) mod 2 = c mod 2"
    by presburger+
  have b0: "?K div 4 mod 2 = c div 4 mod 2"
    using h0(4) unfolding cols(1) a0 by simp
  have b1: "?K div 2 mod 2 = c div 2 mod 2"
    using h1(4) unfolding cols(2) k1 a1 by simp
  have b2: "?K mod 2 = c mod 2"
    using h2(4) unfolding cols(3) k2 a2 by simp
  have K: "?K = c" using h0(2) c b0 b1 b2 by (rule three_bits)
  show "s ! (3 * c) = RubiksCube_ctor ! (3 * c)"
    using h0(1) unfolding cols(1) a0 K by simp
  show "s ! (3 * c + 1) = RubiksCube_ctor ! (3 * c + 1)"
    using h1(1) unfolding cols(2) k1 a1 K by simp
  show "s ! (3 * c + 2) = RubiksCube_ctor ! (3 * c + 2)"
    using h2(1) unfolding cols(3) k2 a2 K by simp
qed

lemma below_6_half: "(c::nat) < 6 \<Longrightarrow> c div 2 = 0 \<or> c div 2 = 1 \<or> c div 2 = 2"
proof -
  assume "c < 6"
  then have "c div 2 < 3" by simp
  then show ?thesis by linarith
qed

lemma slots_24:
  "[0..<24] = [0, 1, 2, 3, 4, 5, 6, 7, 8, 9, 10, 11, 12, 13, 14, 15, 16, 17, 18, 19, 20, 21, 22, 23]"
  by code_simp

text \<open>The colours of a solved cube that keeps the cubelet at Back-Right-Up in place: the
  three faces through that cubelet show its colours, and each of the three corners next to it
  then fixes the colour of one opposite face.\<close>

lemma solved_coherent_colors:
  assumes coh: "coherent s" and sol: "is_solved s"
  shows "map (\<lambda>i. get_facelet_color (s ! i)) [0..<24]
           = [0, 2, 4, 0, 2, 5, 0, 3, 4, 0, 3, 5, 1, 2, 4, 1, 2, 5, 1, 3, 4, 1, 3, 5]"
proof -
  let ?c = "\<lambda>i. get_facelet_color (s ! i)"
  let ?k = "\<lambda>i. facelet_cubelet (s ! i)"
  from sol have x0: "?c 3 = ?c 0" "?c 6 = ?c 0" "?c 9 = ?c 0"
    and x1: "?c 15 = ?c 12" "?c 18 = ?c 12" "?c 21 = ?c 12"
    and y0: "?c 4 = ?c 1" "?c 13 = ?c 1" "?c 16 = ?c 1"
    and y1: "?c 10 = ?c 7" "?c 19 = ?c 7" "?c 22 = ?c 7"
    and z0: "?c 8 = ?c 2" "?c 14 = ?c 2" "?c 20 = ?c 2"
    and z1: "?c 11 = ?c 5" "?c 17 = ?c 5" "?c 23 = ?c 5"
    unfolding is_solved_slots Let_def by blast+
  from coh have f: "s ! 21 = RubiksCube_ctor ! 21" "s ! 22 = RubiksCube_ctor ! 22"
    "s ! 23 = RubiksCube_ctor ! 23"
    unfolding coherent_def by blast+
  have c21: "?c 21 = 1" unfolding f by (simp add: ctor_table get_facelet_color_def)
  have c22: "?c 22 = 3" unfolding f by (simp add: ctor_table get_facelet_color_def)
  have c23: "?c 23 = 5" unfolding f by (simp add: ctor_table get_facelet_color_def)
  have gx: "?c 12 = 1" "?c 15 = 1" "?c 18 = 1" using x1 c21 by simp_all
  have gy: "?c 7 = 3" "?c 10 = 3" "?c 19 = 3" using y1 c22 by simp_all
  have gz: "?c 5 = 5" "?c 11 = 5" "?c 17 = 5" using z1 c23 by simp_all
  note dist = coherent_distinct_slots [OF coh]
  have lt: "(9::nat) < 24" "(10::nat) < 24" "(11::nat) < 24" "(15::nat) < 24" "(16::nat) < 24" "(17::nat) < 24" "(18::nat) < 24" "(19::nat) < 24" "(20::nat) < 24"
    by simp_all

  \<comment> \<open>Front-Right-Up, slots 9 to 11: the face at Front.\<close>
  have c9: "?c 9 = 0"
  proof -
    note h9 = coherent_home [OF coh, of 9, OF lt(1)]
    note h10 = coherent_home [OF coh, of 10, OF lt(2)]
    note h11 = coherent_home [OF coh, of 11, OF lt(3)]
    have k10: "?k 10 = ?k 9" using coherent_cubelet [OF coh, of 10] by simp
    have k11: "?k 11 = ?k 9" using coherent_cubelet [OF coh, of 11] by simp
    have b1: "?k 9 div 2 mod 2 = 1" using h10(4) unfolding gy k10 by simp
    have b2: "?k 9 mod 2 = 1" using h11(4) unfolding gz k11 by simp
    have s10: "s ! 10 = RubiksCube_ctor ! (3 * ?k 9 + 1)" using h10(1) unfolding gy k10 by simp
    have s11: "s ! 11 = RubiksCube_ctor ! (3 * ?k 9 + 2)" using h11(1) unfolding gz k11 by simp
    have "?k 9 \<noteq> 7"
    proof
      assume "?k 9 = 7"
      with s10 f(2) have "s ! 10 = s ! 22" by simp
      then have "(10::nat) = 22" by (rule_tac dist) simp_all
      then show False by simp
    qed
    with below_8 [OF h9(2)] b1 b2 have K: "?k 9 = 3" by (elim disjE) simp_all
    have "?c 9 div 2 \<noteq> 1"
    proof
      assume "?c 9 div 2 = 1"
      with h9(1) s10 K have "s ! 9 = s ! 10" by simp
      then have "(9::nat) = 10" by (rule_tac dist) simp_all
      then show False by simp
    qed
    moreover have "?c 9 div 2 \<noteq> 2"
    proof
      assume "?c 9 div 2 = 2"
      with h9(1) s11 K have "s ! 9 = s ! 11" by simp
      then have "(9::nat) = 11" by (rule_tac dist) simp_all
      then show False by simp
    qed
    ultimately have half: "?c 9 div 2 = 0" using below_6_half [OF h9(3)] by linarith
    have "?c 9 mod 2 = 0" using h9(4) unfolding half K by simp
    with half show ?thesis by presburger
  qed

  \<comment> \<open>Back-Left-Up, slots 15 to 17: the face at Left.\<close>
  have c16: "?c 16 = 2"
  proof -
    note h15 = coherent_home [OF coh, of 15, OF lt(4)]
    note h16 = coherent_home [OF coh, of 16, OF lt(5)]
    note h17 = coherent_home [OF coh, of 17, OF lt(6)]
    have k16: "?k 16 = ?k 15" using coherent_cubelet [OF coh, of 16] by simp
    have k17: "?k 17 = ?k 15" using coherent_cubelet [OF coh, of 17] by simp
    have b0: "?k 15 div 4 mod 2 = 1" using h15(4) unfolding gx by simp
    have b2: "?k 15 mod 2 = 1" using h17(4) unfolding gz k17 by simp
    have s15: "s ! 15 = RubiksCube_ctor ! (3 * ?k 15)" using h15(1) unfolding gx by simp
    have s17: "s ! 17 = RubiksCube_ctor ! (3 * ?k 15 + 2)" using h17(1) unfolding gz k17 by simp
    have "?k 15 \<noteq> 7"
    proof
      assume "?k 15 = 7"
      with s15 f(1) have "s ! 15 = s ! 21" by simp
      then have "(15::nat) = 21" by (rule_tac dist) simp_all
      then show False by simp
    qed
    with below_8 [OF h15(2)] b0 b2 have K: "?k 15 = 5" by (elim disjE) simp_all
    have "?c 16 div 2 \<noteq> 0"
    proof
      assume "?c 16 div 2 = 0"
      with h16(1) s15 K k16 have "s ! 16 = s ! 15" by simp
      then have "(16::nat) = 15" by (rule_tac dist) simp_all
      then show False by simp
    qed
    moreover have "?c 16 div 2 \<noteq> 2"
    proof
      assume "?c 16 div 2 = 2"
      with h16(1) s17 K k16 have "s ! 16 = s ! 17" by simp
      then have "(16::nat) = 17" by (rule_tac dist) simp_all
      then show False by simp
    qed
    ultimately have half: "?c 16 div 2 = 1" using below_6_half [OF h16(3)] by linarith
    have "?c 16 mod 2 = 0" using h16(4) unfolding half k16 K by simp
    with half show ?thesis by presburger
  qed

  \<comment> \<open>Back-Right-Down, slots 18 to 20: the face at Down.\<close>
  have c20: "?c 20 = 4"
  proof -
    note h18 = coherent_home [OF coh, of 18, OF lt(7)]
    note h19 = coherent_home [OF coh, of 19, OF lt(8)]
    note h20 = coherent_home [OF coh, of 20, OF lt(9)]
    have k19: "?k 19 = ?k 18" using coherent_cubelet [OF coh, of 19] by simp
    have k20: "?k 20 = ?k 18" using coherent_cubelet [OF coh, of 20] by simp
    have b0: "?k 18 div 4 mod 2 = 1" using h18(4) unfolding gx by simp
    have b1: "?k 18 div 2 mod 2 = 1" using h19(4) unfolding gy k19 by simp
    have s18: "s ! 18 = RubiksCube_ctor ! (3 * ?k 18)" using h18(1) unfolding gx by simp
    have s19: "s ! 19 = RubiksCube_ctor ! (3 * ?k 18 + 1)" using h19(1) unfolding gy k19 by simp
    have "?k 18 \<noteq> 7"
    proof
      assume "?k 18 = 7"
      with s18 f(1) have "s ! 18 = s ! 21" by simp
      then have "(18::nat) = 21" by (rule_tac dist) simp_all
      then show False by simp
    qed
    with below_8 [OF h18(2)] b0 b1 have K: "?k 18 = 6" by (elim disjE) simp_all
    have "?c 20 div 2 \<noteq> 0"
    proof
      assume "?c 20 div 2 = 0"
      with h20(1) s18 K k20 have "s ! 20 = s ! 18" by simp
      then have "(20::nat) = 18" by (rule_tac dist) simp_all
      then show False by simp
    qed
    moreover have "?c 20 div 2 \<noteq> 1"
    proof
      assume "?c 20 div 2 = 1"
      with h20(1) s19 K k20 have "s ! 20 = s ! 19" by simp
      then have "(20::nat) = 19" by (rule_tac dist) simp_all
      then show False by simp
    qed
    ultimately have half: "?c 20 div 2 = 2" using below_6_half [OF h20(3)] by linarith
    have "?c 20 mod 2 = 0" using h20(4) unfolding half k20 K by simp
    with half show ?thesis by presburger
  qed

  have rx: "?c 0 = 0" "?c 3 = 0" "?c 6 = 0" using x0 c9 by simp_all
  have ry: "?c 1 = 2" "?c 4 = 2" "?c 13 = 2" using y0 c16 by simp_all
  have rz: "?c 2 = 4" "?c 8 = 4" "?c 14 = 4" using z0 c20 by simp_all
  show ?thesis
    using rx ry rz gx gy gz c9 c16 c20 c21 c22 c23 unfolding slots_24 by simp
qed

lemma solved_color_pattern:
  "list_all (\<lambda>c.
       [0, 2, 4, 0, 2, 5, 0, 3, 4, 0, 3, 5, 1, 2, 4, 1, 2, 5, 1, 3, 4, 1, 3, 5] ! (3 * c)
         = c div 4 mod 2
     \<and> [0, 2, 4, 0, 2, 5, 0, 3, 4, 0, 3, 5, 1, 2, 4, 1, 2, 5, 1, 3, 4, 1, 3, 5] ! (3 * c + 1)
         = 2 + c div 2 mod 2
     \<and> [0, 2, 4, 0, 2, 5, 0, 3, 4, 0, 3, 5, 1, 2, 4, 1, 2, 5, 1, 3, 4, 1, 3, 5] ! (3 * c + 2)
         = 4 + c mod (2::nat)) [0..<8]"
  by code_simp

lemma solved_coherent_is_ctor:
  assumes coh: "coherent s" and sol: "is_solved s"
  shows "s = RubiksCube_ctor"
proof (rule nth_equalityI)
  have len: "length s = 24" using coh unfolding coherent_def by blast
  then show "length s = length RubiksCube_ctor" by (simp add: length_ctor)
  let ?tbl = "[0, 2, 4, 0, 2, 5, 0, 3, 4, 0, 3, 5, 1, 2, 4, 1, 2, 5, 1, 3, 4, 1, 3, 5] :: nat list"
  have col: "get_facelet_color (s ! j) = ?tbl ! j" if "j < 24" for j
  proof -
    have "get_facelet_color (s ! j) = map (\<lambda>i. get_facelet_color (s ! i)) [0..<24] ! j"
      using that by simp
    then show ?thesis unfolding solved_coherent_colors [OF coh sol] .
  qed
  fix i assume "i < length s"
  with len have i: "i < 24" by simp
  define c where "c = i div 3"
  have c: "c < 8" using i unfolding c_def by simp
  then have "c \<in> set [0..<8]" by simp
  with solved_color_pattern
  have pat: "?tbl ! (3 * c) = c div 4 mod 2 \<and> ?tbl ! (3 * c + 1) = 2 + c div 2 mod 2
      \<and> ?tbl ! (3 * c + 2) = 4 + c mod 2"
    unfolding list_all_iff by (rule bspec)
  have b: "3 * c < 24" "3 * c + 1 < 24" "3 * c + 2 < 24" using c by simp_all
  have c0: "get_facelet_color (s ! (3 * c)) = c div 4 mod 2"
    using col [OF b(1)] pat by simp
  have c1: "get_facelet_color (s ! (3 * c + 1)) = 2 + c div 2 mod 2"
    using col [OF b(2)] pat by simp
  have c2: "get_facelet_color (s ! (3 * c + 2)) = 4 + c mod 2"
    using col [OF b(3)] pat by simp
  note eq = solved_cubelet [OF coh c c0 c1 c2]
  have "i = 3 * c \<or> i = 3 * c + 1 \<or> i = 3 * c + 2" unfolding c_def by presburger
  with eq show "s ! i = RubiksCube_ctor ! i" by blast
qed

text \<open>Among the cubes reached from the solved cube only the solved cube passes \<open>is_solved\<close>.\<close>

lemma reach_solved_is_ctor:
  "reach RubiksCube_ctor n t \<Longrightarrow> is_solved t \<Longrightarrow> t = RubiksCube_ctor"
  by (rule solved_coherent_is_ctor, rule reach_coherent)

lemma is_solved_ctor: "is_solved RubiksCube_ctor"
  by code_simp

lemma scrambled_solvable:
  assumes "list_all valid_move scramble"
  shows "length (replay RubiksCube_ctor scramble) = 24"
    and "reach (replay RubiksCube_ctor scramble) (length scramble) RubiksCube_ctor"
proof -
  show "length (replay RubiksCube_ctor scramble) = 24"
    using length_ctor by (rule length_replay)
  have "reach RubiksCube_ctor (length scramble) (replay RubiksCube_ctor scramble)"
    using assms unfolding reach_def by blast
  with length_ctor show "reach (replay RubiksCube_ctor scramble) (length scramble) RubiksCube_ctor"
    by (rule reach_sym)
qed

text \<open>The search run on the cube one move away from the solved cube.\<close>

lemma solve_one_move: "get_solution (replay RubiksCube_ctor [FC]) [] = Some [FCC]"
  by code_simp

text \<open>
  Claim C2. For every start cube reached from the solved cube by a sequence of valid moves,
  \<open>get_solution\<close> returns (the search ends), and replaying the returned moves in order with
  \<open>apply_move\<close> from the start cube gives a cube for which \<open>is_solved\<close> holds.
\<close>

theorem C2_solution_solves:
  assumes "list_all valid_move scramble"
    and "start_state = replay RubiksCube_ctor scramble"
  shows "\<exists>solution. get_solution start_state [] = Some solution
           \<and> list_all valid_move solution
           \<and> is_solved (replay start_state solution)"
proof -
  have "length start_state = 24"
    and "reach start_state (length scramble) RubiksCube_ctor"
    unfolding assms(2) using assms(1) by (rule scrambled_solvable)+
  from get_solution_shortest [OF this is_solved_ctor] show ?thesis by blast
qed

theorem C2_solution_solves_witness:
  "list_all valid_move [FC]
   \<and> get_solution (replay RubiksCube_ctor [FC]) [] = Some [FCC]
   \<and> is_solved (replay (replay RubiksCube_ctor [FC]) [FCC])
   \<and> \<not> is_solved (replay RubiksCube_ctor [FC])"
proof -
  have v: "list_all valid_move [FC]" by (simp add: valid_move_def move_ids)
  note run = solve_one_move
  have n: "\<not> is_solved (replay RubiksCube_ctor [FC])" by code_simp
  from C2_solution_solves [OF v refl] run
  have "is_solved (replay (replay RubiksCube_ctor [FC]) [FCC])" by simp
  with v run n show ?thesis by blast
qed

lemma solved_start_empty:
  assumes "is_solved s"
  shows "get_solution s [] = Some []"
proof -
  have "bfs_loop [s] [s \<mapsto> (s, NUMMOVES)]
          = Some (Some (s, (s, NUMMOVES)), [s \<mapsto> (s, NUMMOVES)])"
    using assms by (subst bfs_loop.simps) (simp add: parents_find_def)
  moreover have "rc_equal s s" unfolding rc_equal_def list_all_iff by simp
  then have "follow_parents [s \<mapsto> (s, NUMMOVES)] s (Some (s, (s, NUMMOVES))) [] = Some []"
    by (subst follow_parents.simps) simp
  ultimately show ?thesis unfolding get_solution_def by simp
qed

text \<open>
  Claim C3. Let the start cube be reached from the solved cube by \<open>k\<close> valid moves and by no
  fewer. Then \<open>get_solution\<close> returns a sequence of exactly \<open>k\<close> moves, and no sequence of fewer
  than \<open>k\<close> valid moves leads from the start cube to a cube that passes \<open>is_solved\<close>. A cube
  that is solved already gets the empty sequence.
\<close>

theorem C3_solution_minimal:
  "(list_all valid_move scramble \<and> replay RubiksCube_ctor scramble = start_state
      \<and> length scramble = k
      \<and> (\<forall>ms. list_all valid_move ms \<and> replay RubiksCube_ctor ms = start_state
                \<longrightarrow> k \<le> length ms)
    \<longrightarrow> (\<exists>solution. get_solution start_state [] = Some solution \<and> length solution = k
           \<and> (\<forall>ns. list_all valid_move ns \<and> is_solved (replay start_state ns)
                     \<longrightarrow> k \<le> length ns)))
   \<and> (is_solved s \<longrightarrow> get_solution s [] = Some [])"
proof (intro conjI impI)
  assume "is_solved s"
  then show "get_solution s [] = Some []" by (rule solved_start_empty)
next
  assume a: "list_all valid_move scramble \<and> replay RubiksCube_ctor scramble = start_state
      \<and> length scramble = k
      \<and> (\<forall>ms. list_all valid_move ms \<and> replay RubiksCube_ctor ms = start_state
                \<longrightarrow> k \<le> length ms)"
  then have v: "list_all valid_move scramble"
    and st: "start_state = replay RubiksCube_ctor scramble" and k: "length scramble = k"
    and least: "\<And>ms. list_all valid_move ms \<Longrightarrow> replay RubiksCube_ctor ms = start_state
                  \<Longrightarrow> k \<le> length ms"
    by blast+
  have len: "length start_state = 24" and home: "reach start_state k RubiksCube_ctor"
    using scrambled_solvable [OF v] unfolding st k by simp_all
  have out: "reach RubiksCube_ctor k start_state"
    using v k unfolding st reach_def by blast
  from get_solution_shortest [OF len home is_solved_ctor]
  obtain sol where sol: "get_solution start_state [] = Some sol" "list_all valid_move sol"
    "is_solved (replay start_state sol)"
    and short: "\<And>ns. list_all valid_move ns \<Longrightarrow> is_solved (replay start_state ns)
                  \<Longrightarrow> length sol \<le> length ns"
    by blast
  have upper: "length sol \<le> k"
  proof -
    from home obtain ns where "length ns = k" "list_all valid_move ns"
      "replay start_state ns = RubiksCube_ctor"
      unfolding reach_def by blast
    with short [of ns] is_solved_ctor show ?thesis by simp
  qed
  have lower: "k \<le> length sol"
  proof -
    have step: "reach start_state (length sol) (replay start_state sol)"
      using sol(2) unfolding reach_def by blast
    from reach_trans [OF out step] sol(3)
    have "replay start_state sol = RubiksCube_ctor" by (rule reach_solved_is_ctor)
    with step have "reach start_state (length sol) RubiksCube_ctor" by simp
    with len have "reach RubiksCube_ctor (length sol) start_state" by (rule reach_sym)
    then obtain ms where "length ms = length sol" "list_all valid_move ms"
      "replay RubiksCube_ctor ms = start_state"
      unfolding reach_def by blast
    with least [of ms] show ?thesis by simp
  qed
  from upper lower have eq: "length sol = k" by simp
  have "k \<le> length ns" if "list_all valid_move ns \<and> is_solved (replay start_state ns)" for ns
    using short [of ns] that eq by simp
  with sol(1) eq
  show "\<exists>solution. get_solution start_state [] = Some solution \<and> length solution = k
           \<and> (\<forall>ns. list_all valid_move ns \<and> is_solved (replay start_state ns)
                     \<longrightarrow> k \<le> length ns)"
    by blast
qed

theorem C3_solution_minimal_witness:
  "list_all valid_move [FC] \<and> length [FC] = (1::nat)
   \<and> replay RubiksCube_ctor [FC] \<noteq> RubiksCube_ctor
   \<and> get_solution (replay RubiksCube_ctor [FC]) [] = Some [FCC]
   \<and> (\<exists>solution. get_solution (replay RubiksCube_ctor [FC]) [] = Some solution
         \<and> length solution = 1)
   \<and> is_solved RubiksCube_ctor \<and> get_solution RubiksCube_ctor [] = Some []"
proof -
  have v: "list_all valid_move [FC]" by (simp add: valid_move_def move_ids)
  have ne: "replay RubiksCube_ctor [FC] \<noteq> RubiksCube_ctor" by code_simp
  have least: "\<forall>ms. list_all valid_move ms \<and> replay RubiksCube_ctor ms = replay RubiksCube_ctor [FC]
      \<longrightarrow> 1 \<le> length ms"
  proof (intro allI impI)
    fix ms assume "list_all valid_move ms \<and> replay RubiksCube_ctor ms = replay RubiksCube_ctor [FC]"
    with ne have "ms \<noteq> []" by (auto simp: replay_Nil)
    then show "1 \<le> length ms" by (cases ms) simp_all
  qed
  note inst = C3_solution_minimal [of "[FC]" "replay RubiksCube_ctor [FC]" 1 RubiksCube_ctor]
  from inst v least
  have "\<exists>solution. get_solution (replay RubiksCube_ctor [FC]) [] = Some solution
         \<and> length solution = 1"
    by auto
  moreover from inst is_solved_ctor have "get_solution RubiksCube_ctor [] = Some []" by blast
  ultimately show ?thesis using v ne solve_one_move is_solved_ctor by simp
qed

end
